theory Spec2Isabelle
  imports Main "HOL-Library.Sublist" "HOL-Library.AList" "HOL-Library.Char_ord"
    "HOL-Library.List_Lexorder" "HOL-Library.Multiset"
begin

section \<open>Strings, sets and dictionaries of the Python source\<close>

text \<open>
  A Python \<open>str\<close> is modelled as a \<open>string\<close>.  The grammar notation is ASCII except for
  the marker \<open>\<epsilon>\<close> (U+03B5), which is represented by its two UTF-8 bytes.  The
  functions below model \<open>str.strip\<close>, \<open>str.split\<close> and \<open>str.isupper\<close> on this alphabet
  only: Python also knows whitespace and letters beyond ASCII.  A statement about an
  arbitrary name or symbol therefore assumes that it is \<open>ascii\<close>, or the marker itself.
\<close>

type_synonym symbol = string
type_synonym production = "symbol \<times> symbol list"
type_synonym grammar = "production list"
type_synonym item = "symbol \<times> symbol list \<times> nat"

datatype py_error = ValueError | KeyError | IndexError

definition epsilon :: symbol where
  "epsilon = [CHR 0xCE, CHR 0xB5]"

definition ascii :: "string \<Rightarrow> bool" where
  "ascii s = list_all (\<lambda>c. (of_char c :: nat) < 128) s"

text \<open>
  \<open>str.isspace\<close> on one ASCII character: TAB, LF, VT, FF, CR, FS, GS, RS, US, SPACE.  (The
  whitespace of Python beyond ASCII, such as U+00A0, is outside the modelled alphabet.)
\<close>

definition is_space :: "char \<Rightarrow> bool" where
  "is_space c = (of_char c \<in> {9::nat, 10, 11, 12, 13, 28, 29, 30, 31, 32})"

text \<open>\<open>s.strip()\<close>\<close>

definition strip :: "string \<Rightarrow> string" where
  "strip s = rev (dropWhile is_space (rev (dropWhile is_space s)))"

text \<open>\<open>sep in s\<close>\<close>

fun contains :: "string \<Rightarrow> string \<Rightarrow> bool" where
  "contains sep [] = (sep = [])"
| "contains sep (c # cs) = (prefix sep (c # cs) \<or> contains sep cs)"

text \<open>\<open>s.split(sep)\<close> for a non-empty separator; \<open>cur\<close> is the current field, reversed.\<close>

fun split_on :: "string \<Rightarrow> string \<Rightarrow> string \<Rightarrow> string list" where
  "split_on sep cur [] = [rev cur]"
| "split_on sep cur (c # cs) =
     (if sep \<noteq> [] \<and> prefix sep (c # cs)
      then rev cur # split_on sep [] (drop (length sep) (c # cs))
      else split_on sep (c # cur) cs)"

text \<open>\<open>s.split()\<close>: maximal runs of non-whitespace characters.\<close>

fun split_ws :: "string \<Rightarrow> string \<Rightarrow> string list" where
  "split_ws cur [] = (if cur = [] then [] else [rev cur])"
| "split_ws cur (c # cs) =
     (if is_space c then (if cur = [] then split_ws [] cs else rev cur # split_ws [] cs)
      else split_ws (c # cur) cs)"

section \<open>\<open>parse_grammar\<close>\<close>

text \<open>
  One iteration of the loop over the lines.  \<open>lhs, rhs = line.split('->')\<close> raises
  \<open>ValueError\<close> unless the split has exactly two fields.
\<close>

definition parse_line :: "string \<Rightarrow> py_error + grammar" where
  "parse_line line =
     (if \<not> contains ''->'' line then Inr []
      else (case split_on ''->'' [] line of
              [lhs, rhs] \<Rightarrow>
                Inr (map (\<lambda>alt. (strip lhs, split_ws [] (strip alt)))
                         (split_on ''|'' [] (strip rhs)))
            | _ \<Rightarrow> Inl ValueError))"

fun parse_lines :: "string list \<Rightarrow> grammar \<Rightarrow> py_error + grammar" where
  "parse_lines [] grammar = Inr grammar"
| "parse_lines (line # lines) grammar =
     (case parse_line line of
        Inl e \<Rightarrow> Inl e
      | Inr ps \<Rightarrow> parse_lines lines (grammar @ ps))"

definition parse_grammar :: "string \<Rightarrow> py_error + grammar" where
  "parse_grammar grammar_text = parse_lines (split_on [CHR 0x0A] [] (strip grammar_text)) []"


section \<open>Python sets and dictionaries\<close>

text \<open>
  A Python set is modelled as the list of its elements, without repetition, in the order
  in which they were added.  A dictionary is an association list in insertion order
  (\<open>AList.update\<close> replaces the value of a present key and appends a new one).
\<close>

type_synonym 'a pyset = "'a list"
type_synonym ('k, 'v) dict = "('k \<times> 'v) list"

text \<open>\<open>s.add(x)\<close>\<close>

definition set_add :: "'a \<Rightarrow> 'a pyset \<Rightarrow> 'a pyset" where
  "set_add x s = (if x \<in> set s then s else s @ [x])"

text \<open>\<open>s.update(t)\<close>\<close>

definition set_update :: "'a pyset \<Rightarrow> 'a list \<Rightarrow> 'a pyset" where
  "set_update s t = fold set_add t s"

text \<open>
  A \<open>defaultdict\<close> of sets or lists: reading \<open>d[k]\<close> inserts the empty default when
  \<open>k\<close> is missing (\<open>touch\<close>) and yields the stored value (\<open>lookup\<close>).
\<close>

definition touch :: "'k \<Rightarrow> ('k, 'v list) dict \<Rightarrow> ('k, 'v list) dict" where
  "touch k d = (if k \<in> fst ` set d then d else d @ [(k, [])])"

definition lookup :: "('k, 'v list) dict \<Rightarrow> 'k \<Rightarrow> 'v list" where
  "lookup d k = (case map_of d k of Some v \<Rightarrow> v | None \<Rightarrow> [])"

text \<open>
  \<open>str.isupper\<close> on the modelled alphabet: no cased character is lower-case and at
  least one is upper-case.  The cased characters of ASCII are the letters; the marker
  \<open>\<epsilon>\<close> is a lower-case letter.  (Letters of Python beyond ASCII, other than the marker,
  are outside the modelled alphabet.)
\<close>

definition is_upper_char :: "char \<Rightarrow> bool" where
  "is_upper_char c = (65 \<le> (of_char c :: nat) \<and> (of_char c :: nat) \<le> 90)"

definition is_lower_char :: "char \<Rightarrow> bool" where
  "is_lower_char c = (97 \<le> (of_char c :: nat) \<and> (of_char c :: nat) \<le> 122)"

definition isupper :: "string \<Rightarrow> bool" where
  "isupper s = (\<not> contains epsilon s \<and> list_ex is_upper_char s \<and> \<not> list_ex is_lower_char s)"

section \<open>\<open>compute_first_sets\<close>\<close>

text \<open>\<open>productions[lhs].append(rhs)\<close> for every production, in order.\<close>

definition group_productions :: "grammar \<Rightarrow> (symbol, symbol list list) dict" where
  "group_productions grammar =
     fold (\<lambda>(lhs, rhs) productions. AList.update lhs (lookup productions lhs @ [rhs]) productions)
          grammar []"

text \<open>
  The loop that collects \<open>non_terminals\<close> and \<open>terminals\<close>: a symbol of a right-hand
  side is a terminal when it is not among the left-hand sides seen so far and is not
  upper-case.
\<close>

fun collect_symbols ::
  "grammar \<Rightarrow> symbol pyset \<times> symbol pyset \<Rightarrow> symbol pyset \<times> symbol pyset" where
  "collect_symbols [] (non_terminals, terminals) = (non_terminals, terminals)"
| "collect_symbols ((lhs, rhs) # grammar) (non_terminals, terminals) =
     (let non_terminals' = set_add lhs non_terminals
      in collect_symbols grammar
           (non_terminals',
            fold (\<lambda>symbol ts.
                    if symbol \<notin> set non_terminals' \<and> \<not> isupper symbol
                    then set_add symbol ts else ts) rhs terminals))"

text \<open>\<open>first_of(symbol)\<close>, with the dictionary after the read.\<close>

definition first_of ::
  "symbol pyset \<Rightarrow> (symbol, symbol pyset) dict \<Rightarrow> symbol
     \<Rightarrow> symbol pyset \<times> (symbol, symbol pyset) dict" where
  "first_of terminals first symbol =
     (if symbol \<in> set terminals then ([symbol], first)
      else (lookup first symbol, touch symbol first))"

text \<open>
  The scan of one right-hand side; the first equation is both the \<open>if not rhs\<close> branch
  and the \<open>else\<close> of the \<open>for\<close> loop.
\<close>

fun first_rhs ::
  "symbol pyset \<Rightarrow> symbol \<Rightarrow> symbol list \<Rightarrow> (symbol, symbol pyset) dict
     \<Rightarrow> (symbol, symbol pyset) dict" where
  "first_rhs terminals lhs [] first =
     AList.update lhs (set_add epsilon (lookup first lhs)) (touch lhs first)"
| "first_rhs terminals lhs (symbol # rhs) first =
     (let first0 = touch lhs first;
          (f, first1) = first_of terminals first0 symbol;
          first2 = AList.update lhs (set_update (lookup first1 lhs) (removeAll epsilon f)) first1;
          (f', first3) = first_of terminals first2 symbol
      in if epsilon \<notin> set f' then first3 else first_rhs terminals lhs rhs first3)"

definition first_production ::
  "symbol pyset \<Rightarrow> symbol \<Rightarrow> symbol list \<Rightarrow> (symbol, symbol pyset) dict \<times> bool
     \<Rightarrow> (symbol, symbol pyset) dict \<times> bool" where
  "first_production terminals lhs rhs = (\<lambda>(first, changed).
     let first0 = touch lhs first;
         before_len = length (lookup first0 lhs);
         first1 = first_rhs terminals lhs rhs first0
     in (first1, changed \<or> before_len < length (lookup first1 lhs)))"

definition first_pass ::
  "symbol pyset \<Rightarrow> (symbol, symbol list list) dict \<Rightarrow> (symbol, symbol pyset) dict
     \<Rightarrow> (symbol, symbol pyset) dict \<times> bool" where
  "first_pass terminals productions first =
     fold (\<lambda>(lhs, rhss). fold (first_production terminals lhs) rhss) productions (first, False)"

function first_loop ::
  "symbol pyset \<Rightarrow> (symbol, symbol list list) dict \<Rightarrow> (symbol, symbol pyset) dict
     \<Rightarrow> (symbol, symbol pyset) dict" where
  "first_loop terminals productions first =
     (if snd (first_pass terminals productions first)
      then first_loop terminals productions (fst (first_pass terminals productions first))
      else fst (first_pass terminals productions first))"
  by pat_completeness auto

definition compute_first_sets :: "grammar \<Rightarrow> (symbol, symbol pyset) dict" where
  "compute_first_sets grammar =
     first_loop (snd (collect_symbols grammar ([], []))) (group_productions grammar) []"

section \<open>\<open>compute_follow_sets\<close>\<close>

text \<open>
  One occurrence of a nonterminal \<open>symbol\<close> in a right-hand side, \<open>rest\<close> being
  \<open>rhs[i+1:]\<close>.  The result carries the value of \<open>len(follow[symbol]) > before_len\<close>, where
  \<open>before_len\<close> is the length read before the last update only.
\<close>

fun follow_trailer ::
  "(symbol, symbol pyset) dict \<Rightarrow> symbol \<Rightarrow> symbol \<Rightarrow> symbol list
     \<Rightarrow> (symbol, symbol pyset) dict \<Rightarrow> (symbol, symbol pyset) dict \<times> bool" where
  "follow_trailer first_sets lhs symbol [] follow =
     (let follow0 = touch symbol follow;
          before_len = length (lookup follow0 symbol);
          follow1 = touch lhs follow0;
          follow2 = AList.update symbol
                      (set_update (lookup follow1 symbol) (lookup follow1 lhs)) follow1
      in (follow2, before_len < length (lookup follow2 symbol)))"
| "follow_trailer first_sets lhs symbol (next_symbol # rest) follow =
     (let trailer = (case map_of first_sets next_symbol of
                       Some f \<Rightarrow> removeAll epsilon f
                     | None \<Rightarrow> [next_symbol]);
          epsilon_in_next = (case map_of first_sets next_symbol of
                               Some f \<Rightarrow> epsilon \<in> set f
                             | None \<Rightarrow> False);
          follow0 = touch symbol follow;
          before_len = length (lookup follow0 symbol);
          follow1 = AList.update symbol (set_update (lookup follow0 symbol) trailer) follow0
      in if epsilon_in_next then follow_trailer first_sets lhs symbol rest follow1
         else (follow1, before_len < length (lookup follow1 symbol)))"

fun follow_rhs ::
  "(symbol, symbol pyset) dict \<Rightarrow> symbol pyset \<Rightarrow> symbol \<Rightarrow> symbol list
     \<Rightarrow> (symbol, symbol pyset) dict \<times> bool \<Rightarrow> (symbol, symbol pyset) dict \<times> bool" where
  "follow_rhs first_sets non_terminals lhs [] st = st"
| "follow_rhs first_sets non_terminals lhs (symbol # rest) (follow, changed) =
     (if symbol \<in> set non_terminals
      then follow_rhs first_sets non_terminals lhs rest
             (fst (follow_trailer first_sets lhs symbol rest follow),
              changed \<or> snd (follow_trailer first_sets lhs symbol rest follow))
      else follow_rhs first_sets non_terminals lhs rest (follow, changed))"

definition follow_pass ::
  "(symbol, symbol pyset) dict \<Rightarrow> symbol pyset \<Rightarrow> (symbol, symbol list list) dict
     \<Rightarrow> (symbol, symbol pyset) dict \<Rightarrow> (symbol, symbol pyset) dict \<times> bool" where
  "follow_pass first_sets non_terminals productions follow =
     fold (\<lambda>(lhs, rhss). fold (follow_rhs first_sets non_terminals lhs) rhss)
          productions (follow, False)"

function follow_loop ::
  "(symbol, symbol pyset) dict \<Rightarrow> symbol pyset \<Rightarrow> (symbol, symbol list list) dict
     \<Rightarrow> (symbol, symbol pyset) dict \<Rightarrow> (symbol, symbol pyset) dict" where
  "follow_loop first_sets non_terminals productions follow =
     (if snd (follow_pass first_sets non_terminals productions follow)
      then follow_loop first_sets non_terminals productions
             (fst (follow_pass first_sets non_terminals productions follow))
      else fst (follow_pass first_sets non_terminals productions follow))"
  by pat_completeness auto

definition compute_follow_sets ::
  "grammar \<Rightarrow> (symbol, symbol pyset) dict \<Rightarrow> symbol \<Rightarrow> (symbol, symbol pyset) dict" where
  "compute_follow_sets grammar first_sets start_symbol =
     follow_loop first_sets (map fst (group_productions grammar)) (group_productions grammar)
       (AList.update start_symbol (set_add ''$'' []) [])"

section \<open>\<open>closure\<close> and \<open>goto\<close>\<close>

text \<open>
  One round of the \<open>while\<close> loop of \<open>closure\<close>: the items of \<open>closure_set\<close> are
  visited in turn and \<open>new_items\<close> collects the items that are in neither set.
\<close>

fun closure_new_items ::
  "(symbol, symbol list list) dict \<Rightarrow> item pyset \<Rightarrow> item list \<Rightarrow> item pyset \<Rightarrow> item pyset" where
  "closure_new_items productions closure_set [] new_items = new_items"
| "closure_new_items productions closure_set ((lhs, rhs, dot_pos) # items) new_items =
     closure_new_items productions closure_set items
       (if dot_pos < length rhs
        then (case map_of productions (rhs ! dot_pos) of
                Some rhss \<Rightarrow>
                  fold (\<lambda>prod_rhs new.
                          if (rhs ! dot_pos, prod_rhs, 0) \<notin> set closure_set \<and>
                             (rhs ! dot_pos, prod_rhs, 0) \<notin> set new
                          then set_add (rhs ! dot_pos, prod_rhs, 0) new else new)
                       rhss new_items
              | None \<Rightarrow> new_items)
        else new_items)"

function closure_loop :: "(symbol, symbol list list) dict \<Rightarrow> item pyset \<Rightarrow> item pyset" where
  "closure_loop productions closure_set =
     (if closure_new_items productions closure_set closure_set [] \<noteq> []
      then closure_loop productions
             (set_update closure_set (closure_new_items productions closure_set closure_set []))
      else closure_set)"
  by pat_completeness auto

definition closure :: "item list \<Rightarrow> grammar \<Rightarrow> item pyset" where
  "closure items grammar = closure_loop (group_productions grammar) (remdups items)"


section \<open>\<open>construct_lr0_item_sets\<close>\<close>







section \<open>\<open>build_slr_parsing_table\<close>\<close>

text \<open>\<open>str(n)\<close> for a natural number: its decimal digits.\<close>

definition digit_char :: "nat \<Rightarrow> char" where
  "digit_char d = char_of (48 + d)"

fun str_nat :: "nat \<Rightarrow> string" where
  "str_nat n = (if n < 10 then [digit_char n] else str_nat (n div 10) @ [digit_char (n mod 10)])"

text \<open>\<open>prod_map\<close>: a production that occurs twice keeps its last index.\<close>

definition prod_map_of :: "grammar \<Rightarrow> (production, nat) dict" where
  "prod_map_of grammar = fold (\<lambda>(idx, p) m. AList.update p idx m) (enumerate 0 grammar) []"

text \<open>
  The terminals of the table builder: classified as in \<open>compute_first_sets\<close>, with
  \<open>id\<close> and \<open>*\<close> always added when they occur, and \<open>$\<close> added at the end.
\<close>

fun table_symbols ::
  "grammar \<Rightarrow> symbol pyset \<times> symbol pyset \<Rightarrow> symbol pyset \<times> symbol pyset" where
  "table_symbols [] (terminals, nonterminals) = (terminals, nonterminals)"
| "table_symbols ((lhs, rhs) # grammar) (terminals, nonterminals) =
     (let nonterminals' = set_add lhs nonterminals
      in table_symbols grammar
           (fold (\<lambda>sym ts.
                    let ts1 = (if sym \<notin> set nonterminals' \<and> \<not> isupper sym
                               then set_add sym ts else ts)
                    in if sym = ''id'' \<or> sym = ''*'' then set_add sym ts1 else ts1) rhs terminals,
            nonterminals'))"

definition table_terminals :: "grammar \<Rightarrow> symbol pyset" where
  "table_terminals grammar = set_add ''$'' (fst (table_symbols grammar ([], [])))"

definition table_nonterminals :: "grammar \<Rightarrow> symbol pyset" where
  "table_nonterminals grammar = snd (table_symbols grammar ([], []))"

text \<open>A loop whose body may raise: the first error ends it.\<close>

fun fold_err :: "('a \<Rightarrow> 's \<Rightarrow> py_error + 's) \<Rightarrow> 'a list \<Rightarrow> 's \<Rightarrow> py_error + 's" where
  "fold_err f [] s = Inr s"
| "fold_err f (x # xs) s = (case f x s of Inl e \<Rightarrow> Inl e | Inr s' \<Rightarrow> fold_err f xs s')"

text \<open>The \<open>for a in follow_sets[lhs]\<close> loop of a completed item.\<close>

definition reduce_actions ::
  "nat \<Rightarrow> nat \<Rightarrow> symbol list \<Rightarrow> (nat \<times> symbol, string) dict \<Rightarrow> (nat \<times> symbol, string) dict" where
  "reduce_actions i prod_num follow_lhs action_table =
     fold (\<lambda>a tbl. case map_of tbl (i, a) of
                     Some v \<Rightarrow> AList.update (i, a) (v @ ''/reduce '' @ str_nat prod_num) tbl
                   | None \<Rightarrow> AList.update (i, a) (''reduce '' @ str_nat prod_num) tbl)
          follow_lhs action_table"

text \<open>The body of \<open>for item in item_set\<close>, for the item set with index \<open>i\<close>.\<close>

definition slr_item ::
  "symbol pyset \<Rightarrow> (nat \<times> symbol, nat) dict \<Rightarrow> (production, nat) dict
     \<Rightarrow> (symbol, symbol pyset) dict \<Rightarrow> nat \<Rightarrow> item
     \<Rightarrow> (nat \<times> symbol, string) dict \<Rightarrow> py_error + (nat \<times> symbol, string) dict" where
  "slr_item terminals goto_table prod_map follow_sets i item action_table =
     (case item of (lhs, rhs, dot_pos) \<Rightarrow>
        if dot_pos < length rhs
        then (if rhs ! dot_pos \<in> set terminals
              then (case map_of goto_table (i, rhs ! dot_pos) of
                      Some j \<Rightarrow>
                        Inr (AList.update (i, rhs ! dot_pos) (''shift '' @ str_nat j) action_table)
                    | None \<Rightarrow> Inr action_table)
              else Inr action_table)
        else if lhs = [CHR ''S'', CHR 0x27]
        then Inr (AList.update (i, ''$'') ''accept'' action_table)
        else (case map_of prod_map (lhs, rhs) of
                None \<Rightarrow> Inl KeyError
              | Some prod_num \<Rightarrow>
                  (case map_of follow_sets lhs of
                     None \<Rightarrow> Inl KeyError
                   | Some follow_lhs \<Rightarrow>
                       Inr (reduce_actions i prod_num follow_lhs action_table))))"

text \<open>The \<open>for A in nonterminals\<close> loop that copies the GOTO entries of state \<open>i\<close>.\<close>

definition goto_entries ::
  "symbol pyset \<Rightarrow> (nat \<times> symbol, nat) dict \<Rightarrow> nat \<Rightarrow> (nat \<times> symbol, nat) dict
     \<Rightarrow> (nat \<times> symbol, nat) dict" where
  "goto_entries nonterminals goto_table i goto_table_out =
     fold (\<lambda>A out. case map_of goto_table (i, A) of
                     Some j \<Rightarrow> AList.update (i, A) j out
                   | None \<Rightarrow> out) nonterminals goto_table_out"

text \<open>The body of \<open>for i, item_set in enumerate(item_sets)\<close>.\<close>

definition slr_state ::
  "grammar \<Rightarrow> (nat \<times> symbol, nat) dict \<Rightarrow> (symbol, symbol pyset) dict \<Rightarrow> nat \<times> item list
     \<Rightarrow> (nat \<times> symbol, string) dict \<times> (nat \<times> symbol, nat) dict
     \<Rightarrow> py_error + (nat \<times> symbol, string) dict \<times> (nat \<times> symbol, nat) dict" where
  "slr_state grammar goto_table follow_sets = (\<lambda>(i, item_set) (action_table, goto_table_out).
     case fold_err (slr_item (table_terminals grammar) goto_table (prod_map_of grammar)
                      follow_sets i) item_set action_table of
       Inl e \<Rightarrow> Inl e
     | Inr action_table' \<Rightarrow>
         Inr (action_table',
              goto_entries (table_nonterminals grammar) goto_table i goto_table_out))"

text \<open>
  The item sets are given as lists: the order of a list is the order in which the
  \<open>for item in item_set\<close> loop visits the items of that set.  After the loops the
  function reads \<open>follow_sets['L']\<close> for its last \<open>print\<close>.
\<close>

definition build_slr_parsing_table ::
  "grammar \<Rightarrow> item list list \<Rightarrow> (nat \<times> symbol, nat) dict \<Rightarrow> (symbol, symbol pyset) dict
     \<Rightarrow> py_error + (nat \<times> symbol, string) dict \<times> (nat \<times> symbol, nat) dict" where
  "build_slr_parsing_table grammar item_sets goto_table follow_sets =
     (case fold_err (slr_state grammar goto_table follow_sets) (enumerate 0 item_sets) ([], []) of
        Inl e \<Rightarrow> Inl e
      | Inr tables \<Rightarrow>
          (case map_of follow_sets ''L'' of
             None \<Rightarrow> Inl KeyError
           | Some _ \<Rightarrow> Inr tables))"

section \<open>The parse driver\<close>

text \<open>
  The loop of the \<open>Parsing Steps\<close> tab.  The stack holds states (integers) and
  symbols (strings); a step of the trace is a dictionary with four string fields.
\<close>

datatype stack_entry = State int | Symbol symbol

record parse_step =
  Stack :: string
  Input :: string
  Action :: string
  Conflict :: string

text \<open>\<open>sep.join(xs)\<close>\<close>

fun join :: "string \<Rightarrow> string list \<Rightarrow> string" where
  "join sep [] = []"
| "join sep [x] = x"
| "join sep (x # y # xs) = x @ sep @ join sep (y # xs)"

definition str_int :: "int \<Rightarrow> string" where
  "str_int n = (if n < 0 then CHR ''-'' # str_nat (nat (- n)) else str_nat (nat n))"

definition str_entry :: "stack_entry \<Rightarrow> string" where
  "str_entry e = (case e of State n \<Rightarrow> str_int n | Symbol s \<Rightarrow> s)"

text \<open>
  \<open>int(s)\<close> for a token without whitespace: an optional sign, then decimal digits, which
  single underscores may separate; anything else raises \<open>ValueError\<close>.
\<close>

definition is_digit :: "char \<Rightarrow> bool" where
  "is_digit c = (48 \<le> (of_char c :: nat) \<and> (of_char c :: nat) \<le> 57)"

definition digits_value :: "string \<Rightarrow> nat" where
  "digits_value s = foldl (\<lambda>n c. 10 * n + (of_char c - 48)) 0 s"

definition py_int :: "string \<Rightarrow> py_error + int" where
  "py_int s =
     (let body = (case s of
                    [] \<Rightarrow> []
                  | c # cs \<Rightarrow> if c = CHR ''-'' \<or> c = CHR ''+'' then cs else s);
          groups = split_on ''_'' [] body
      in if list_all (\<lambda>g. g \<noteq> [] \<and> list_all is_digit g) groups
         then Inr ((if take 1 s = ''-'' then - 1 else 1) * int (digits_value (concat groups)))
         else Inl ValueError)"

text \<open>\<open>int(action.split()[1])\<close>\<close>

definition action_arg :: "string \<Rightarrow> py_error + int" where
  "action_arg action =
     (case split_ws [] action of
        _ # arg # _ \<Rightarrow> py_int arg
      | _ \<Rightarrow> Inl IndexError)"

text \<open>\<open>xs[i]\<close> for a list and an integer, negative indices counting from the end.\<close>

definition py_index :: "'a list \<Rightarrow> int \<Rightarrow> py_error + 'a" where
  "py_index xs i =
     (let j = (if i < 0 then int (length xs) + i else i)
      in if 0 \<le> j \<and> j < int (length xs) then Inr (xs ! nat j) else Inl IndexError)"

text \<open>\<open>n\<close> times \<open>stack.pop()\<close>\<close>

definition pop_n :: "nat \<Rightarrow> 'a list \<Rightarrow> py_error + 'a list" where
  "pop_n n stack = (if n \<le> length stack then Inr (take (length stack - n) stack) else Inl IndexError)"

text \<open>\<open>stack[-1]\<close>\<close>

definition stack_top :: "'a list \<Rightarrow> py_error + 'a" where
  "stack_top stack = (if stack = [] then Inl IndexError else Inr (last stack))"

text \<open>
  \<open>action_table.get((state, symbol), '')\<close> and \<open>goto_table_out.get((state, lhs), None)\<close>:
  the tables are keyed by state numbers, so no other value of \<open>state\<close> is a key.
\<close>

definition get_action :: "(nat \<times> symbol, string) dict \<Rightarrow> stack_entry \<Rightarrow> symbol \<Rightarrow> string" where
  "get_action action_table state symbol =
     (case state of
        State n \<Rightarrow> (if 0 \<le> n then (case map_of action_table (nat n, symbol) of
                                      Some a \<Rightarrow> a | None \<Rightarrow> [])
                    else [])
      | Symbol _ \<Rightarrow> [])"

definition get_goto :: "(nat \<times> symbol, nat) dict \<Rightarrow> stack_entry \<Rightarrow> symbol \<Rightarrow> nat option" where
  "get_goto goto_table_out state lhs =
     (case state of
        State n \<Rightarrow> (if 0 \<le> n then map_of goto_table_out (nat n, lhs) else None)
      | Symbol _ \<Rightarrow> None)"

text \<open>An update of the last recorded step, \<open>steps[-1][...] = ...\<close>.\<close>

definition update_last :: "(parse_step \<Rightarrow> parse_step) \<Rightarrow> parse_step list \<Rightarrow> parse_step list" where
  "update_last f steps = butlast steps @ [f (last steps)]"

text \<open>
  The \<open>reduce\<close> branch after the step has been recorded: either the new stack, or the
  trace that ends the loop with a GOTO error.
\<close>

definition reduce_step ::
  "grammar \<Rightarrow> (nat \<times> symbol, nat) dict \<Rightarrow> string \<Rightarrow> stack_entry list \<Rightarrow> parse_step list
     \<Rightarrow> py_error + (parse_step list + stack_entry list)" where
  "reduce_step grammar goto_table_out action stack steps =
     (case action_arg action of
        Inl e \<Rightarrow> Inl e
      | Inr prod_num \<Rightarrow>
          (case py_index grammar prod_num of
             Inl e \<Rightarrow> Inl e
           | Inr (lhs, rhs) \<Rightarrow>
               (case (if rhs \<noteq> [epsilon] then pop_n (2 * length rhs) stack else Inr stack) of
                  Inl e \<Rightarrow> Inl e
                | Inr stack1 \<Rightarrow>
                    (case stack_top stack1 of
                       Inl e \<Rightarrow> Inl e
                     | Inr state \<Rightarrow>
                         (case get_goto goto_table_out state lhs of
                            None \<Rightarrow>
                              Inr (Inl (update_last
                                     (\<lambda>s. s\<lparr>Action := Action s @ '' (Goto error)''\<rparr>) steps))
                          | Some goto_state \<Rightarrow>
                              Inr (Inr (stack1 @ [Symbol lhs, State (int goto_state)])))))))"

text \<open>
  One iteration of the \<open>while\<close> loop: it either ends the loop (a \<open>break\<close> or an
  exception) or goes on with a new stack, trace and pointer.
\<close>

datatype loop_result =
  Done "py_error + parse_step list"
| Next "stack_entry list" "parse_step list" nat

definition driver_body ::
  "grammar \<Rightarrow> (nat \<times> symbol, string) dict \<Rightarrow> (nat \<times> symbol, nat) dict \<Rightarrow> symbol list
     \<Rightarrow> stack_entry list \<Rightarrow> parse_step list \<Rightarrow> nat \<Rightarrow> loop_result" where
  "driver_body grammar action_table goto_table_out input_tokens stack steps pointer =
     (case stack_top stack of
        Inl e \<Rightarrow> Done (Inl e)
      | Inr state \<Rightarrow>
         (let symbol = input_tokens ! pointer;
              action = get_action action_table state symbol;
              conflict = (contains ''shift'' action \<and> contains ''reduce'' action);
              steps1 = steps @ [\<lparr>Stack = join '' '' (map str_entry stack),
                                 Input = join '' '' (drop pointer input_tokens),
                                 Action = action,
                                 Conflict = (if conflict then ''Yes'' else [])\<rparr>]
          in if conflict then Done (Inr steps1)
             else if prefix ''shift'' action
             then (case action_arg action of
                     Inl e \<Rightarrow> Done (Inl e)
                   | Inr next_state \<Rightarrow>
                       Next (stack @ [Symbol symbol, State next_state]) steps1 (pointer + 1))
             else if prefix ''reduce'' action
             then (case reduce_step grammar goto_table_out action stack steps1 of
                     Inl e \<Rightarrow> Done (Inl e)
                   | Inr (Inl steps2) \<Rightarrow> Done (Inr steps2)
                   | Inr (Inr stack2) \<Rightarrow> Next stack2 steps1 pointer)
             else if action = ''accept''
             then Done (Inr (update_last (\<lambda>s. s\<lparr>Conflict := []\<rparr>) steps1))
             else Done (Inr (update_last (\<lambda>s. s\<lparr>Action := Action s @ '' (Error)''\<rparr>) steps1))))"

text \<open>\<open>while pointer < len(input_tokens) and len(steps) < max_steps\<close>\<close>

function driver_loop ::
  "grammar \<Rightarrow> (nat \<times> symbol, string) dict \<Rightarrow> (nat \<times> symbol, nat) dict \<Rightarrow> symbol list \<Rightarrow> nat
     \<Rightarrow> stack_entry list \<Rightarrow> parse_step list \<Rightarrow> nat \<Rightarrow> py_error + parse_step list" where
  "driver_loop grammar action_table goto_table_out input_tokens max_steps stack steps pointer =
     (if pointer < length input_tokens \<and> length steps < max_steps
      then (case driver_body grammar action_table goto_table_out input_tokens stack steps pointer of
              Done result \<Rightarrow> result
            | Next stack' steps' pointer' \<Rightarrow>
                driver_loop grammar action_table goto_table_out input_tokens max_steps
                  stack' steps' pointer')
      else Inr steps)"
  by pat_completeness auto

text \<open>The run of the tab: \<open>stack = [0]\<close>, \<open>steps = []\<close>, \<open>pointer = 0\<close>, \<open>max_steps = 50\<close>.\<close>

definition max_steps :: nat where
  "max_steps = 50"

definition parse_driver ::
  "grammar \<Rightarrow> (nat \<times> symbol, string) dict \<Rightarrow> (nat \<times> symbol, nat) dict \<Rightarrow> symbol list
     \<Rightarrow> py_error + parse_step list" where
  "parse_driver grammar action_table goto_table_out input_tokens =
     driver_loop grammar action_table goto_table_out input_tokens max_steps [State 0] [] 0"

section \<open>The fixed grammar and input of the application\<close>

definition grammar_text :: string where
  "grammar_text =
     [CHR ''S'', CHR 0x27] @ '' -> S'' @ [CHR 0x0A] @ ''S -> L = R'' @ [CHR 0x0A] @
     ''S -> R'' @ [CHR 0x0A] @ ''L -> * R'' @ [CHR 0x0A] @ ''L -> id'' @ [CHR 0x0A] @ ''R -> L''"

definition input_tokens :: "symbol list" where
  "input_tokens = [''id'', ''='', ''id'', ''*'', ''id'', ''$'']"



section \<open>Derivation of the empty string\<close>

text \<open>
  The notion of the specification, ``\<open>A\<close> can derive the empty string'': a sentential
  form derives the empty string when it is empty, or begins with the marker \<open>\<epsilon>\<close> and
  the rest derives it, or begins with a symbol that has a production whose right-hand
  side, followed by the rest, derives it.
\<close>

inductive derives_empty :: "grammar \<Rightarrow> symbol list \<Rightarrow> bool" for g where
  Empty: "derives_empty g []"
| Marker: "derives_empty g w \<Longrightarrow> derives_empty g (epsilon # w)"
| Expand: "(A, rhs) \<in> set g \<Longrightarrow> derives_empty g (rhs @ w) \<Longrightarrow> derives_empty g (A # w)"

section \<open>The ACTION table cell by cell\<close>




section \<open>Termination of the fixed-point loops\<close>

text \<open>
  Every update of a set appends elements that were not there before, so a dictionary of
  sets only grows; a pass that reports a change has added an element of a finite universe.
\<close>

definition ext :: "'a list \<Rightarrow> 'a list \<Rightarrow> bool" where
  "ext s s' = (\<exists>t. s' = s @ t \<and> set t \<inter> set s = {})"

lemma ext_refl [simp]: "ext s s"
  by (simp add: ext_def)

lemma ext_trans: "ext s t \<Longrightarrow> ext t u \<Longrightarrow> ext s u"
  by (auto simp: ext_def)

lemma ext_set_add [simp]: "ext s (set_add x s)"
  by (simp add: ext_def set_add_def)

lemma ext_set_update [simp]: "ext s (set_update s t)"
  unfolding set_update_def
proof (induction t arbitrary: s)
  case Nil
  show ?case by simp
next
  case (Cons x t)
  show ?case using ext_trans [OF ext_set_add Cons.IH] by simp
qed

lemma ext_length: "ext s s' \<Longrightarrow> length s \<le> length s'"
  by (auto simp: ext_def)

lemma ext_subset: "ext s s' \<Longrightarrow> set s \<subseteq> set s'"
  by (auto simp: ext_def)

lemma ext_strict: "ext s s' \<Longrightarrow> length s < length s' \<Longrightarrow> \<exists>x. x \<in> set s' \<and> x \<notin> set s"
proof -
  assume "ext s s'" and len: "length s < length s'"
  then obtain t where t: "s' = s @ t" "set t \<inter> set s = {}" by (auto simp: ext_def)
  with len have "t \<noteq> []" by auto
  then obtain x where "x \<in> set t" by (cases t) auto
  with t show ?thesis by auto
qed

lemma set_set_add [simp]: "set (set_add x s) = insert x (set s)"
  by (auto simp: set_add_def)

lemma set_set_update [simp]: "set (set_update s t) = set s \<union> set t"
  unfolding set_update_def by (induction t arbitrary: s) auto

lemma lookup_touch [simp]: "lookup (touch k d) k' = lookup d k'"
proof (cases "k \<in> fst ` set d")
  case True
  then show ?thesis by (simp add: touch_def)
next
  case False
  then have "map_of d k = None" by (simp add: map_of_eq_None_iff)
  then show ?thesis
    by (cases "map_of d k'") (auto simp: lookup_def touch_def False map_add_def)
qed

lemma lookup_update [simp]:
  "lookup (AList.update k v d) k' = (if k' = k then v else lookup d k')"
  by (simp add: lookup_def update_conv')

definition dict_le :: "('k, 'v list) dict \<Rightarrow> ('k, 'v list) dict \<Rightarrow> bool" where
  "dict_le d d' = (\<forall>k. ext (lookup d k) (lookup d' k))"

definition bounded :: "'v set \<Rightarrow> ('k, 'v list) dict \<Rightarrow> bool" where
  "bounded U d = (\<forall>k. set (lookup d k) \<subseteq> U)"

definition grows ::
  "'k set \<Rightarrow> 'v set \<Rightarrow> ('k, 'v list) dict \<times> bool \<Rightarrow> ('k, 'v list) dict \<times> bool \<Rightarrow> bool" where
  "grows K U st st' =
     (dict_le (fst st) (fst st') \<and> (bounded U (fst st) \<longrightarrow> bounded U (fst st')) \<and>
      (snd st' \<longrightarrow> snd st \<or> (\<exists>k\<in>K. length (lookup (fst st) k) < length (lookup (fst st') k))))"

lemma dict_le_refl [simp]: "dict_le d d"
  by (simp add: dict_le_def)

lemma dict_le_trans: "dict_le d d' \<Longrightarrow> dict_le d' d'' \<Longrightarrow> dict_le d d''"
  unfolding dict_le_def by (blast intro: ext_trans)

lemma grows_refl [simp]: "grows K U st st"
  by (simp add: grows_def)

lemma grows_trans:
  assumes "grows K U a b" "grows K U b c"
  shows "grows K U a c"
proof -
  have le: "dict_le (fst a) (fst b)" "dict_le (fst b) (fst c)"
    using assms by (auto simp: grows_def)
  have "snd c \<longrightarrow> snd a \<or> (\<exists>k\<in>K. length (lookup (fst a) k) < length (lookup (fst c) k))"
  proof
    assume "snd c"
    then consider "snd b" | k where "k \<in> K" "length (lookup (fst b) k) < length (lookup (fst c) k)"
      using assms(2) by (auto simp: grows_def)
    then show "snd a \<or> (\<exists>k\<in>K. length (lookup (fst a) k) < length (lookup (fst c) k))"
    proof cases
      case 1
      then consider "snd a" | k where "k \<in> K" "length (lookup (fst a) k) < length (lookup (fst b) k)"
        using assms(1) by (auto simp: grows_def)
      then show ?thesis
      proof cases
        case 1 then show ?thesis by simp
      next
        case 2
        moreover have "length (lookup (fst b) k) \<le> length (lookup (fst c) k)"
          using le(2) by (simp add: dict_le_def ext_length)
        ultimately show ?thesis by force
      qed
    next
      case 2
      moreover have "length (lookup (fst a) k) \<le> length (lookup (fst b) k)"
        using le(1) by (simp add: dict_le_def ext_length)
      ultimately show ?thesis by force
    qed
  qed
  with assms le show ?thesis
    by (auto simp: grows_def intro: dict_le_trans)
qed

lemma grows_fold:
  "(\<And>x st. x \<in> set xs \<Longrightarrow> grows K U st (f x st)) \<Longrightarrow> grows K U st (fold f xs st)"
proof (induction xs arbitrary: st)
  case Nil
  show ?case by simp
next
  case (Cons x xs)
  have "grows K U st (f x st)" by (rule Cons.prems) simp
  moreover have "grows K U (f x st) (fold f xs (f x st))"
    by (rule Cons.IH) (simp add: Cons.prems)
  ultimately show ?case by (auto intro: grows_trans)
qed

definition vals :: "('k, 'v list) dict \<Rightarrow> 'v set" where
  "vals d = (\<Union>k. set (lookup d k))"

definition pairs :: "('k, 'v list) dict \<Rightarrow> ('k \<times> 'v) set" where
  "pairs d = {(k, x). x \<in> set (lookup d k)}"

lemma finite_vals: "finite (vals d)"
proof -
  have "vals d \<subseteq> (\<Union>v\<in>snd ` set d. set v)"
  proof
    fix x assume "x \<in> vals d"
    then obtain k where k: "x \<in> set (lookup d k)" by (auto simp: vals_def)
    then obtain v where v: "map_of d k = Some v" "x \<in> set v"
      by (cases "map_of d k") (auto simp: lookup_def)
    from v(1) have "(k, v) \<in> set d" by (rule map_of_SomeD)
    then have "v \<in> snd ` set d" by force
    with v(2) show "x \<in> (\<Union>v\<in>snd ` set d. set v)" by blast
  qed
  then show ?thesis by (rule finite_subset) simp
qed

lemma grows_decreases:
  assumes fin: "finite K" "finite U0"
    and g: "grows K (U0 \<union> vals d) (d, False) (d', True)"
  shows "(K \<times> (U0 \<union> vals d') - pairs d', K \<times> (U0 \<union> vals d) - pairs d) \<in> finite_psubset"
proof -
  have "bounded (U0 \<union> vals d) d" by (auto simp: bounded_def vals_def)
  with g have b: "bounded (U0 \<union> vals d) d'" by (simp add: grows_def)
  then have sub: "vals d' \<subseteq> U0 \<union> vals d" by (auto simp: bounded_def vals_def)
  from g have le: "dict_le d d'" by (simp add: grows_def)
  then have psub: "pairs d \<subseteq> pairs d'"
    by (auto simp: pairs_def dict_le_def dest: ext_subset)
  from g obtain k where k: "k \<in> K" "length (lookup d k) < length (lookup d' k)"
    by (auto simp: grows_def)
  from le have "ext (lookup d k) (lookup d' k)" by (simp add: dict_le_def)
  from ext_strict [OF this k(2)] obtain x where x: "x \<in> set (lookup d' k)" "x \<notin> set (lookup d k)"
    by blast
  from x(1) b have "x \<in> U0 \<union> vals d" by (auto simp: bounded_def)
  with k x have "(k, x) \<in> K \<times> (U0 \<union> vals d) - pairs d" "(k, x) \<notin> K \<times> (U0 \<union> vals d') - pairs d'"
    by (auto simp: pairs_def)
  moreover have "K \<times> (U0 \<union> vals d') - pairs d' \<subseteq> K \<times> (U0 \<union> vals d) - pairs d"
    using sub psub by auto
  ultimately have "K \<times> (U0 \<union> vals d') - pairs d' \<subset> K \<times> (U0 \<union> vals d) - pairs d"
    by blast
  moreover have "finite (K \<times> (U0 \<union> vals d) - pairs d)"
    using fin finite_vals by auto
  ultimately show ?thesis by (simp add: finite_psubset_def)
qed


lemma first_of_lookup [simp]: "lookup (snd (first_of ts d s)) k = lookup d k"
  by (simp add: first_of_def)

lemma first_of_bounded: "bounded U d \<Longrightarrow> set ts \<subseteq> U \<Longrightarrow> set (fst (first_of ts d s)) \<subseteq> U"
  by (auto simp: first_of_def bounded_def)

lemma first_rhs_grows:
  assumes U: "epsilon \<in> U" "set ts \<subseteq> U"
  shows "dict_le d (first_rhs ts lhs rhs d) \<and>
         (bounded U d \<longrightarrow> bounded U (first_rhs ts lhs rhs d))"
proof (induction rhs arbitrary: d)
  case Nil
  show ?case using U by (auto simp: dict_le_def bounded_def)
next
  case (Cons symbol rhs)
  define f where "f = fst (first_of ts (touch lhs d) symbol)"
  define d2 where "d2 = AList.update lhs (set_update (lookup (snd (first_of ts (touch lhs d) symbol)) lhs)
                          (removeAll epsilon f)) (snd (first_of ts (touch lhs d) symbol))"
  define d3 where "d3 = snd (first_of ts d2 symbol)"
  have eq: "first_rhs ts lhs (symbol # rhs) d =
              (if epsilon \<notin> set (fst (first_of ts d2 symbol)) then d3 else first_rhs ts lhs rhs d3)"
    by (simp add: Let_def d3_def d2_def f_def case_prod_beta)
  have l3: "lookup d3 k = (if k = lhs then set_update (lookup d lhs) (removeAll epsilon f)
                           else lookup d k)" for k
    by (simp add: d3_def d2_def)
  have le: "dict_le d d3" by (simp add: dict_le_def l3)
  have bd: "bounded U d3" if "bounded U d"
  proof -
    from that have "bounded U (touch lhs d)" by (simp add: bounded_def)
    then have "set f \<subseteq> U" unfolding f_def using U(2) by (rule first_of_bounded)
    with that show ?thesis by (auto simp: bounded_def l3)
  qed
  show ?case
  proof (cases "epsilon \<notin> set (fst (first_of ts d2 symbol))")
    case True
    with eq le bd show ?thesis by simp
  next
    case False
    with eq have "first_rhs ts lhs (symbol # rhs) d = first_rhs ts lhs rhs d3" by simp
    with Cons.IH [of d3] le bd show ?thesis by (auto intro: dict_le_trans)
  qed
qed

lemma first_rhs_other: "k \<noteq> lhs \<Longrightarrow> lookup (first_rhs ts lhs rhs d) k = lookup d k"
  by (induction rhs arbitrary: d) (auto simp: Let_def case_prod_beta)

lemma first_production_grows:
  assumes "epsilon \<in> U" "set ts \<subseteq> U" "lhs \<in> K"
  shows "grows K U st (first_production ts lhs rhs st)"
proof -
  obtain d c where st: "st = (d, c)" by (cases st)
  have "dict_le (touch lhs d) (first_rhs ts lhs rhs (touch lhs d))"
       "bounded U (touch lhs d) \<longrightarrow> bounded U (first_rhs ts lhs rhs (touch lhs d))"
    using first_rhs_grows [OF assms(1,2)] by blast+
  then show ?thesis using assms(3)
    by (auto simp: grows_def st first_production_def Let_def dict_le_def bounded_def)
qed

lemma first_pass_grows:
  assumes "epsilon \<in> U" "set ts \<subseteq> U"
  shows "grows (fst ` set prods) U (d, False) (first_pass ts prods d)"
  unfolding first_pass_def
proof (rule grows_fold)
  fix x st assume x: "x \<in> set prods"
  obtain lhs rhss where [simp]: "x = (lhs, rhss)" by (cases x)
  have "grows (fst ` set prods) U st (fold (first_production ts lhs) rhss st)"
  proof (rule grows_fold)
    fix rhs st'
    from x have "lhs \<in> fst ` set prods" by force
    with assms show "grows (fst ` set prods) U st' (first_production ts lhs rhs st')"
      by (rule first_production_grows)
  qed
  then show "grows (fst ` set prods) U st ((case x of (lhs, rhss) \<Rightarrow> fold (first_production ts lhs) rhss) st)"
    by simp
qed

termination first_loop
proof (relation "inv_image finite_psubset
         (\<lambda>(ts, prods, d). fst ` set prods \<times> (insert epsilon (set ts) \<union> vals d) - pairs d)")
  show "wf (inv_image finite_psubset
         (\<lambda>(ts, prods, d). fst ` set prods \<times> (insert epsilon (set ts) \<union> vals d) - pairs d))"
    by (intro wf_inv_image wf_finite_psubset)
next
  fix terminals :: "symbol pyset" and productions :: "(symbol, symbol list list) dict"
    and first :: "(symbol, symbol pyset) dict"
  assume c: "snd (first_pass terminals productions first)"
  have "grows (fst ` set productions) (insert epsilon (set terminals) \<union> vals first)
          (first, False) (first_pass terminals productions first)"
    by (rule first_pass_grows) auto
  with c have "grows (fst ` set productions) (insert epsilon (set terminals) \<union> vals first)
          (first, False) (fst (first_pass terminals productions first), True)"
    by (cases "first_pass terminals productions first") simp
  from grows_decreases [OF _ _ this]
  show "((terminals, productions, fst (first_pass terminals productions first)),
         (terminals, productions, first)) \<in> inv_image finite_psubset
         (\<lambda>(ts, prods, d). fst ` set prods \<times> (insert epsilon (set ts) \<union> vals d) - pairs d)"
    by simp
qed

lemma follow_trailer_grows:
  assumes U: "\<And>k f. map_of first_sets k = Some f \<Longrightarrow> set f \<subseteq> U" "set rest \<subseteq> U"
    and K: "symbol \<in> K"
  shows "grows K U (d, c) (fst (follow_trailer first_sets lhs symbol rest d),
                            c \<or> snd (follow_trailer first_sets lhs symbol rest d))"
  using U(2)
proof (induction rest arbitrary: d c)
  case Nil
  show ?case using K
    by (auto simp: grows_def Let_def dict_le_def bounded_def)
next
  case (Cons next_symbol rest)
  define trailer where "trailer = (case map_of first_sets next_symbol of
                       Some f \<Rightarrow> removeAll epsilon f | None \<Rightarrow> [next_symbol])"
  define d1 where "d1 = AList.update symbol (set_update (lookup (touch symbol d) symbol) trailer)
                          (touch symbol d)"
  have tr: "set trailer \<subseteq> U"
    using U(1) [of next_symbol] Cons.prems by (auto simp: trailer_def split: option.splits)
  have one: "grows K U (d, c) (d1, c \<or> length (lookup d symbol) < length (lookup d1 symbol))"
    using K tr by (auto simp: grows_def d1_def dict_le_def bounded_def)
  show ?case
  proof (cases "case map_of first_sets next_symbol of Some f \<Rightarrow> epsilon \<in> set f | None \<Rightarrow> False")
    case False
    then have "follow_trailer first_sets lhs symbol (next_symbol # rest) d =
                 (d1, length (lookup d symbol) < length (lookup d1 symbol))"
      by (simp add: Let_def d1_def trailer_def)
    with one show ?thesis by simp
  next
    case True
    then have eq: "follow_trailer first_sets lhs symbol (next_symbol # rest) d =
                 follow_trailer first_sets lhs symbol rest d1"
      by (simp add: Let_def d1_def trailer_def)
    have "grows K U (d, c) (d1, c)"
      using K tr by (auto simp: grows_def d1_def dict_le_def bounded_def)
    moreover have "grows K U (d1, c) (fst (follow_trailer first_sets lhs symbol rest d1),
                            c \<or> snd (follow_trailer first_sets lhs symbol rest d1))"
      by (rule Cons.IH) (use Cons.prems in simp)
    ultimately show ?thesis unfolding eq by (rule grows_trans)
  qed
qed

lemma follow_rhs_grows:
  assumes U: "\<And>k f. map_of first_sets k = Some f \<Longrightarrow> set f \<subseteq> U" "set rhs \<subseteq> U"
  shows "grows (set nts) U st (follow_rhs first_sets nts lhs rhs st)"
  using U(2)
proof (induction rhs arbitrary: st)
  case Nil
  show ?case by simp
next
  case (Cons symbol rest)
  obtain d c where st: "st = (d, c)" by (cases st)
  show ?case
  proof (cases "symbol \<in> set nts")
    case False
    with Cons show ?thesis by (simp add: st)
  next
    case True
    have "grows (set nts) U (d, c) (fst (follow_trailer first_sets lhs symbol rest d),
                            c \<or> snd (follow_trailer first_sets lhs symbol rest d))"
      by (rule follow_trailer_grows) (use U(1) Cons.prems True in auto)
    moreover have "grows (set nts) U (fst (follow_trailer first_sets lhs symbol rest d),
                            c \<or> snd (follow_trailer first_sets lhs symbol rest d))
            (follow_rhs first_sets nts lhs rest (fst (follow_trailer first_sets lhs symbol rest d),
                            c \<or> snd (follow_trailer first_sets lhs symbol rest d)))"
      by (rule Cons.IH) (use Cons.prems in simp)
    ultimately show ?thesis using True by (auto simp: st intro: grows_trans)
  qed
qed

definition follow_universe ::
  "(symbol, symbol pyset) dict \<Rightarrow> (symbol, symbol list list) dict \<Rightarrow> symbol set" where
  "follow_universe first_sets prods =
     (\<Union>f\<in>snd ` set first_sets. set f) \<union> (\<Union>rhss\<in>snd ` set prods. \<Union>rhs\<in>set rhss. set rhs)"

lemma finite_follow_universe: "finite (follow_universe first_sets prods)"
  by (simp add: follow_universe_def)

lemma follow_pass_grows:
  assumes "follow_universe first_sets prods \<subseteq> U"
  shows "grows (set nts) U (d, False) (follow_pass first_sets nts prods d)"
  unfolding follow_pass_def
proof (rule grows_fold)
  fix x st assume x: "x \<in> set prods"
  obtain lhs rhss where [simp]: "x = (lhs, rhss)" by (cases x)
  have f: "set f \<subseteq> U" if "map_of first_sets k = Some f" for k f
  proof -
    from that have "(k, f) \<in> set first_sets" by (rule map_of_SomeD)
    then have "f \<in> snd ` set first_sets" by force
    with assms show ?thesis by (auto simp: follow_universe_def)
  qed
  have "grows (set nts) U st (fold (follow_rhs first_sets nts lhs) rhss st)"
  proof (rule grows_fold)
    fix rhs st' assume "rhs \<in> set rhss"
    with x have "set rhs \<subseteq> follow_universe first_sets prods"
      by (force simp: follow_universe_def)
    with assms have "set rhs \<subseteq> U" by blast
    with f show "grows (set nts) U st' (follow_rhs first_sets nts lhs rhs st')"
      by (rule follow_rhs_grows)
  qed
  then show "grows (set nts) U st ((case x of (lhs, rhss) \<Rightarrow> fold (follow_rhs first_sets nts lhs) rhss) st)"
    by simp
qed

termination follow_loop
proof (relation "inv_image finite_psubset
         (\<lambda>(fs, nts, prods, d). set nts \<times> (follow_universe fs prods \<union> vals d) - pairs d)")
  show "wf (inv_image finite_psubset
         (\<lambda>(fs, nts, prods, d). set nts \<times> (follow_universe fs prods \<union> vals d) - pairs d))"
    by (intro wf_inv_image wf_finite_psubset)
next
  fix first_sets :: "(symbol, symbol pyset) dict" and non_terminals :: "symbol pyset"
    and productions :: "(symbol, symbol list list) dict" and follow :: "(symbol, symbol pyset) dict"
  assume c: "snd (follow_pass first_sets non_terminals productions follow)"
  have "grows (set non_terminals) (follow_universe first_sets productions \<union> vals follow)
          (follow, False) (follow_pass first_sets non_terminals productions follow)"
    by (rule follow_pass_grows) auto
  with c have "grows (set non_terminals) (follow_universe first_sets productions \<union> vals follow)
          (follow, False) (fst (follow_pass first_sets non_terminals productions follow), True)"
    by (cases "follow_pass first_sets non_terminals productions follow") simp
  from grows_decreases [OF _ finite_follow_universe this]
  show "((first_sets, non_terminals, productions,
          fst (follow_pass first_sets non_terminals productions follow)),
         (first_sets, non_terminals, productions, follow)) \<in> inv_image finite_psubset
         (\<lambda>(fs, nts, prods, d). set nts \<times> (follow_universe fs prods \<union> vals d) - pairs d)"
    by simp
qed

declare first_loop.simps [simp del] follow_loop.simps [simp del]

section \<open>Termination and fixed point of \<open>closure\<close>\<close>

text \<open>The items that one round of the loop finds for the items of \<open>S\<close>.\<close>

definition expand_item :: "(symbol, symbol list list) dict \<Rightarrow> item \<Rightarrow> item set" where
  "expand_item prods it =
     (case it of (lhs, rhs, d) \<Rightarrow>
        if d < length rhs
        then (case map_of prods (rhs ! d) of
                Some rhss \<Rightarrow> (\<lambda>r. (rhs ! d, r, 0)) ` set rhss | None \<Rightarrow> {})
        else {})"

definition expansions :: "(symbol, symbol list list) dict \<Rightarrow> item set \<Rightarrow> item set" where
  "expansions prods S = (\<Union>it\<in>S. expand_item prods it)"

definition initial_items :: "(symbol, symbol list list) dict \<Rightarrow> item set" where
  "initial_items prods = (\<Union>(s, rhss)\<in>set prods. (\<lambda>r. (s, r, 0)) ` set rhss)"

lemma finite_initial_items: "finite (initial_items prods)"
  by (auto simp: initial_items_def)

lemma expand_item_initial: "expand_item prods it \<subseteq> initial_items prods"
proof -
  obtain lhs rhs d where it: "it = (lhs, rhs, d)" by (cases it)
  show ?thesis
  proof (cases "map_of prods (rhs ! d)")
    case None
    then show ?thesis by (simp add: it expand_item_def)
  next
    case (Some rhss)
    then have "(rhs ! d, rhss) \<in> set prods" by (rule map_of_SomeD)
    then have "(\<lambda>r. (rhs ! d, r, 0)) ` set rhss \<subseteq> initial_items prods"
      by (force simp: initial_items_def)
    with Some show ?thesis by (simp add: it expand_item_def)
  qed
qed

lemma expansions_initial: "expansions prods S \<subseteq> initial_items prods"
  unfolding expansions_def using expand_item_initial by blast

lemma expansions_insert:
  "expansions prods (insert it S) = expand_item prods it \<union> expansions prods S"
  by (simp add: expansions_def)

lemma expansions_empty [simp]: "expansions prods {} = {}"
  by (simp add: expansions_def)

lemma set_fold_new_items:
  "set (fold (\<lambda>r new. if (s, r, 0::nat) \<notin> set cs \<and> (s, r, 0) \<notin> set new
                       then set_add (s, r, 0) new else new) rhss new) =
   set new \<union> ((\<lambda>r. (s, r, 0)) ` set rhss - set cs)"
  by (induction rhss arbitrary: new) auto

lemma set_closure_new_items:
  "set (closure_new_items prods cs items new) = set new \<union> (expansions prods (set items) - set cs)"
proof (induction items arbitrary: new)
  case Nil
  show ?case by simp
next
  case (Cons it items)
  obtain lhs rhs d where it: "it = (lhs, rhs, d)" by (cases it)
  show ?case
    unfolding it closure_new_items.simps Cons.IH list.set expansions_insert
    by (auto simp: set_fold_new_items expand_item_def split: option.splits)
qed

termination closure_loop
proof (relation "inv_image finite_psubset (\<lambda>(prods, cs). initial_items prods - set cs)")
  show "wf (inv_image finite_psubset (\<lambda>(prods, cs). initial_items prods - set cs))"
    by (intro wf_inv_image wf_finite_psubset)
next
  fix productions :: "(symbol, symbol list list) dict" and closure_set :: "item pyset"
  let ?new = "closure_new_items productions closure_set closure_set []"
  assume "?new \<noteq> []"
  then obtain x where "x \<in> set ?new" by (cases ?new) auto
  then have x: "x \<in> initial_items productions" "x \<notin> set closure_set"
    using expansions_initial [of productions "set closure_set"]
    by (auto simp: set_closure_new_items)
  have "initial_items productions - set (set_update closure_set ?new)
          \<subset> initial_items productions - set closure_set"
    using x \<open>x \<in> set ?new\<close> by auto
  then show "((productions, set_update closure_set ?new), (productions, closure_set))
               \<in> inv_image finite_psubset (\<lambda>(prods, cs). initial_items prods - set cs)"
    by (simp add: finite_psubset_def finite_initial_items)
qed

definition closed :: "(symbol, symbol list list) dict \<Rightarrow> item set \<Rightarrow> bool" where
  "closed prods S = (expansions prods S \<subseteq> S)"

lemma closure_new_items_Nil: "closure_new_items prods cs cs [] = [] \<longleftrightarrow> closed prods (set cs)"
proof -
  have "closure_new_items prods cs cs [] = [] \<longleftrightarrow> set (closure_new_items prods cs cs []) = {}"
    by simp
  then show ?thesis unfolding set_closure_new_items closed_def by auto
qed

lemma closure_loop_closed: "closed prods (set (closure_loop prods cs))"
proof (induction prods cs rule: closure_loop.induct)
  case (1 prods cs)
  show ?case
  proof (cases "closure_new_items prods cs cs [] = []")
    case True
    then show ?thesis by (simp add: closure_new_items_Nil [symmetric])
  next
    case False
    with "1.IH" show ?thesis by simp
  qed
qed

lemma closure_loop_extensive: "set cs \<subseteq> set (closure_loop prods cs)"
proof (induction prods cs rule: closure_loop.induct)
  case (1 prods cs)
  show ?case
  proof (cases "closure_new_items prods cs cs [] = []")
    case True
    then show ?thesis by simp
  next
    case False
    with "1.IH" show ?thesis by auto
  qed
qed

lemma closure_loop_fixed: "closed prods (set cs) \<Longrightarrow> closure_loop prods cs = cs"
  by (simp add: closure_new_items_Nil)

lemma closed_remdups: "closed prods (set (remdups cs)) = closed prods (set cs)"
  by simp

section \<open>Termination of the parse driver\<close>

lemma length_update_last: "steps \<noteq> [] \<Longrightarrow> length (update_last f steps) = length steps"
  by (simp add: update_last_def)

lemma reduce_step_length:
  "reduce_step G gt action stack steps = Inr (Inl steps2) \<Longrightarrow> steps \<noteq> [] \<Longrightarrow>
   length steps2 = length steps"
  by (auto simp: reduce_step_def length_update_last split: sum.splits option.splits prod.splits)

lemma driver_body_Next:
  "driver_body G act gt toks stack steps p = Next stack' steps' p' \<Longrightarrow>
   length steps' = Suc (length steps)"
  by (auto simp: driver_body_def Let_def split: sum.splits if_splits)

lemma driver_body_Done:
  "driver_body G act gt toks stack steps p = Done (Inr steps') \<Longrightarrow>
   length steps' = Suc (length steps)"
  by (auto simp: driver_body_def Let_def length_update_last
           split: sum.splits if_splits dest!: reduce_step_length)

termination driver_loop
  by (relation "measure (\<lambda>(grammar, action_table, goto_table_out, input_tokens, max_steps,
                            stack, steps, pointer). max_steps - length steps)")
     (auto dest!: driver_body_Next)

lemma driver_loop_bound:
  "driver_loop G act gt toks n stack steps p = Inr steps' \<Longrightarrow> length steps \<le> n \<Longrightarrow>
   length steps' \<le> n"
proof (induction G act gt toks n stack steps p arbitrary: steps' rule: driver_loop.induct)
  case (1 G act gt toks n stack steps p)
  show ?case
  proof (cases "p < length toks \<and> length steps < n")
    case False
    with "1.prems" show ?thesis by simp
  next
    case True
    show ?thesis
    proof (cases "driver_body G act gt toks stack steps p")
      case (Done result)
      with True "1.prems"(1) have "driver_body G act gt toks stack steps p = Done (Inr steps')"
        by simp
      from driver_body_Done [OF this] True show ?thesis by simp
    next
      case (Next stack2 steps2 p2)
      with True "1.prems"(1) have "driver_loop G act gt toks n stack2 steps2 p2 = Inr steps'"
        by simp
      moreover from driver_body_Next [OF Next] True have "length steps2 \<le> n" by simp
      ultimately show ?thesis using "1.IH" [OF True Next] by simp
    qed
  qed
qed

section \<open>Properties of \<open>parse_grammar\<close>\<close>

lemma split_on_not_Nil: "split_on sep cur s \<noteq> []"
  by (induction sep cur s rule: split_on.induct) auto

lemma length_split_on: "sep \<noteq> [] \<Longrightarrow> (length (split_on sep cur s) = 1) = (\<not> contains sep s)"
proof (induction sep cur s rule: split_on.induct)
  case (1 sep cur)
  then show ?case by simp
next
  case (2 sep cur c cs)
  show ?case
  proof (cases "prefix sep (c # cs)")
    case True
    with 2 show ?thesis by (simp add: split_on_not_Nil)
  next
    case False
    with 2 show ?thesis by simp
  qed
qed

lemma parse_line_error:
  "parse_line line = Inl e \<longleftrightarrow> e = ValueError \<and> 2 < length (split_on ''->'' [] line)"
proof (cases "contains ''->'' line")
  case False
  then have "length (split_on ''->'' [] line) = 1"
    using length_split_on [of "''->''" "[]" line] by simp
  with False show ?thesis by (simp add: parse_line_def)
next
  case True
  then have n1: "length (split_on ''->'' [] line) \<noteq> 1"
    using length_split_on [of "''->''" "[]" line] by simp
  obtain x xs where xs: "split_on ''->'' [] line = x # xs"
    using split_on_not_Nil [of "''->''" "[]" line] by (cases "split_on ''->'' [] line") auto
  with n1 obtain y ys where ys: "xs = y # ys" by (cases xs) auto
  show ?thesis using True by (cases ys) (auto simp: parse_line_def xs ys)
qed

lemma parse_lines_error:
  "parse_lines lines g = Inl e \<longleftrightarrow>
     e = ValueError \<and> (\<exists>line\<in>set lines. 2 < length (split_on ''->'' [] line))"
proof (induction lines arbitrary: g)
  case Nil
  show ?case by simp
next
  case (Cons line lines)
  show ?case
  proof (cases "parse_line line")
    case (Inl e')
    then have "e' = ValueError \<and> 2 < length (split_on ''->'' [] line)"
      by (simp add: parse_line_error)
    with Inl show ?thesis by auto
  next
    case (Inr ps)
    then have "\<not> 2 < length (split_on ''->'' [] line)"
      using parse_line_error [of line ValueError] by auto
    with Inr Cons.IH [of "g @ ps"] show ?thesis by auto
  qed
qed

lemma split_on_absent: "c \<notin> set s \<Longrightarrow> split_on [c] cur s = [rev cur @ s]"
  by (induction s arbitrary: cur) auto

lemma split_on_none: "sep \<noteq> [] \<Longrightarrow> \<not> contains sep s \<Longrightarrow> split_on sep cur s = [rev cur @ s]"
  by (induction sep cur s rule: split_on.induct) auto

lemma contains_arrow_snoc:
  "\<not> contains ''->'' A \<Longrightarrow> c \<noteq> CHR ''>'' \<Longrightarrow> \<not> contains ''->'' (A @ [c])"
proof (induction A)
  case Nil
  show ?case by simp
next
  case (Cons a A)
  then show ?case by (cases A) auto
qed

lemma split_on_step:
  "\<not> prefix sep (c # cs) \<Longrightarrow> split_on sep cur (c # cs) = split_on sep (c # cur) cs"
  by simp

lemma split_on_arrow:
  "\<not> contains ''->'' A \<Longrightarrow>
   split_on ''->'' cur (A @ ''->'' @ B) = (rev cur @ A) # split_on ''->'' [] B"
proof (induction A arbitrary: cur)
  case Nil
  show ?case by simp
next
  case (Cons a A)
  from Cons.prems have nc: "\<not> contains ''->'' A" by simp
  from Cons.prems have np: "\<not> prefix ''->'' (a # A @ ''->'' @ B)" by (cases A) auto
  have "split_on ''->'' cur (a # (A @ ''->'' @ B)) = split_on ''->'' (a # cur) (A @ ''->'' @ B)"
    using np by (rule split_on_step)
  also have "\<dots> = (rev (a # cur) @ A) # split_on ''->'' [] B"
    using nc by (rule Cons.IH)
  finally show ?case by simp
qed

lemma contains_append: "contains sep B \<Longrightarrow> contains sep (A @ B)"
  by (induction A) auto

lemma split_ws_word:
  "\<forall>c\<in>set A. \<not> is_space c \<Longrightarrow> cur \<noteq> [] \<or> A \<noteq> [] \<Longrightarrow> split_ws cur A = [rev cur @ A]"
  by (induction A arbitrary: cur) auto

lemma strip_word:
  assumes "A \<noteq> []" "\<forall>c\<in>set A. \<not> is_space c"
  shows "strip (A @ B) = A @ rev (dropWhile is_space (rev B))"
proof -
  obtain a A' where A: "A = a # A'" using assms(1) by (cases A) auto
  with assms(2) have "dropWhile is_space (A @ B) = A @ B" by simp
  moreover have "dropWhile is_space (rev B @ rev A) =
                   (if \<forall>c\<in>set B. is_space c then rev A else dropWhile is_space (rev B) @ rev A)"
  proof -
    have "dropWhile is_space (rev A) = rev A"
      using assms by (cases "rev A") (auto simp: dropWhile_eq_Cons_conv Cons_eq_append_conv)
    then show ?thesis by (auto simp: dropWhile_append)
  qed
  moreover have "(\<forall>c\<in>set B. is_space c) \<Longrightarrow> dropWhile is_space (rev B) = []"
    by simp
  ultimately show ?thesis by (auto simp: strip_def)
qed

lemma is_space_newline [simp]: "is_space (CHR 0x0A)"
  by (simp add: is_space_def)

lemma parse_line_simple:
  assumes A: "A \<noteq> []" "\<forall>c\<in>set A. \<not> is_space c" "\<not> contains ''->'' A"
    and B: "\<not> contains ''->'' B"
  shows "parse_line (A @ '' ->'' @ B) =
           Inr (map (\<lambda>alt. (A, split_ws [] (strip alt))) (split_on ''|'' [] (strip B)))"
proof -
  have c: "contains ''->'' (A @ '' ->'' @ B)"
    by (rule contains_append) simp
  have "\<not> contains ''->'' (A @ '' '')"
    using A(3) by (rule contains_arrow_snoc) simp
  from split_on_arrow [OF this, of "[]" B]
  have s: "split_on ''->'' [] (A @ '' ->'' @ B) = [A @ '' '', B]"
    using B by (simp add: split_on_none)
  have "strip (A @ '' '') = A"
    using strip_word [OF A(1,2), of "'' ''"] by (simp add: is_space_def)
  with c s show ?thesis by (simp add: parse_line_def)
qed

lemma parse_grammar_line:
  assumes A: "A \<noteq> []" "\<forall>c\<in>set A. \<not> is_space c" "\<not> contains ''->'' A"
    and B: "\<not> contains ''->'' B" "CHR 0x0A \<notin> set B" "B = [] \<or> \<not> is_space (last B)"
  shows "parse_grammar (A @ '' ->'' @ B) =
           Inr (map (\<lambda>alt. (A, split_ws [] (strip alt))) (split_on ''|'' [] (strip B)))"
proof -
  have "dropWhile is_space (rev B @ ''>- '') = rev B @ ''>- ''"
    using B(3) by (cases "rev B") (auto simp: is_space_def)
  then have st: "strip (A @ '' ->'' @ B) = A @ '' ->'' @ B"
    using strip_word [OF A(1,2), of "'' ->'' @ B"] by simp
  have "CHR 0x0A \<notin> set (A @ '' ->'' @ B)"
    using A(2) B(2) by (auto simp: is_space_def)
  then have "split_on [CHR 0x0A] [] (A @ '' ->'' @ B) = [A @ '' ->'' @ B]"
    by (simp add: split_on_absent)
  then show ?thesis
    unfolding parse_grammar_def st using parse_line_simple [OF A B(1)] by simp
qed

section \<open>The analysis of the fixed grammar\<close>

text \<open>The values that the application computes for its grammar, named for the proofs.\<close>

definition fixed_grammar :: grammar where
  "fixed_grammar =
     [([CHR ''S'', CHR 0x27], [''S'']), (''S'', [''L'', ''='', ''R'']), (''S'', [''R'']),
      (''L'', [''*'', ''R'']), (''L'', [''id'']), (''R'', [''L''])]"

definition fixed_follow :: "(symbol, symbol pyset) dict" where
  "fixed_follow =
     [([CHR ''S'', CHR 0x27], [''$'']), (''S'', [''$'']), (''L'', [''='', ''$'']),
      (''R'', [''$'', ''=''])]"

definition fixed_item_sets :: "item pyset list" where
  "fixed_item_sets =
     [[([CHR ''S'', CHR 0x27], [''S''], 0), (''S'', [''L'', ''='', ''R''], 0), (''S'', [''R''], 0),
       (''L'', [''*'', ''R''], 0), (''L'', [''id''], 0), (''R'', [''L''], 0)],
      [(''L'', [''*'', ''R''], 1), (''R'', [''L''], 0), (''L'', [''*'', ''R''], 0),
       (''L'', [''id''], 0)],
      [(''S'', [''L'', ''='', ''R''], 1), (''R'', [''L''], 1)],
      [(''S'', [''R''], 1)],
      [([CHR ''S'', CHR 0x27], [''S''], 1)],
      [(''L'', [''id''], 1)],
      [(''R'', [''L''], 1)],
      [(''L'', [''*'', ''R''], 2)],
      [(''S'', [''L'', ''='', ''R''], 2), (''R'', [''L''], 0), (''L'', [''*'', ''R''], 0),
       (''L'', [''id''], 0)],
      [(''S'', [''L'', ''='', ''R''], 3)]]"

definition fixed_goto :: "(nat \<times> symbol, nat) dict" where
  "fixed_goto =
     [((0, ''*''), 1), ((0, ''L''), 2), ((0, ''R''), 3), ((0, ''S''), 4), ((0, ''id''), 5),
      ((1, ''*''), 1), ((1, ''L''), 6), ((1, ''R''), 7), ((1, ''id''), 5), ((2, ''=''), 8),
      ((8, ''*''), 1), ((8, ''L''), 6), ((8, ''R''), 9), ((8, ''id''), 5)]"





section \<open>Symbol classes and dictionary keys\<close>

lemma distinct_set_add [simp]: "distinct (set_add x s) = distinct s"
  by (auto simp: set_add_def)

lemma distinct_set_update [simp]: "distinct (set_update s t) = distinct s"
  unfolding set_update_def by (induction t arbitrary: s) auto

lemma keys_touch [simp]: "fst ` set (touch k d) = insert k (fst ` set d)"
  by (auto simp: touch_def)

lemma keys_update [simp]: "fst ` set (AList.update k v d) = insert k (fst ` set d)"
  by (simp add: dom_update)

lemma keys_group_productions_fold:
  "fst ` set (fold (\<lambda>(lhs, rhs) productions.
                      AList.update lhs (lookup productions lhs @ [rhs]) productions) g d)
     = fst ` set d \<union> fst ` set g"
  by (induction g arbitrary: d) (auto simp: case_prod_beta)

lemma keys_group_productions: "fst ` set (group_productions g) = fst ` set g"
  by (simp add: group_productions_def keys_group_productions_fold)

text \<open>The right-hand-side symbols of a grammar.\<close>

definition rhs_symbols :: "grammar \<Rightarrow> symbol set" where
  "rhs_symbols g = (\<Union>p\<in>set g. set (snd p))"

text \<open>
  The terminals that the collecting loop finds after the left-hand sides \<open>N\<close>: the
  symbols of a right-hand side that are not upper-case and are not in \<open>N\<close>, nor the
  left-hand side of that production or of an earlier one.
\<close>

definition unseen_terminals :: "symbol set \<Rightarrow> grammar \<Rightarrow> symbol set" where
  "unseen_terminals N g =
     {s. \<exists>pre lhs rhs post. g = pre @ (lhs, rhs) # post \<and> s \<in> set rhs \<and>
           s \<notin> N \<union> fst ` set pre \<union> {lhs} \<and> \<not> isupper s}"

lemma unseen_terminals_Nil [simp]: "unseen_terminals N [] = {}"
  by (simp add: unseen_terminals_def)

lemma unseen_terminals_Cons:
  "unseen_terminals N ((lhs, rhs) # g) =
     {s \<in> set rhs. s \<notin> insert lhs N \<and> \<not> isupper s} \<union> unseen_terminals (insert lhs N) g"
  (is "?A = ?new \<union> ?B")
proof (intro set_eqI iffI)
  fix s assume "s \<in> ?A"
  then obtain pre l r post where h: "(lhs, rhs) # g = pre @ (l, r) # post" "s \<in> set r"
    "s \<notin> N \<union> fst ` set pre \<union> {l}" "\<not> isupper s"
    unfolding unseen_terminals_def by blast
  show "s \<in> ?new \<union> ?B"
  proof (cases pre)
    case Nil
    with h show ?thesis by auto
  next
    case (Cons q pre')
    with h have "g = pre' @ (l, r) # post \<and> s \<in> set r \<and>
                 s \<notin> insert lhs N \<union> fst ` set pre' \<union> {l} \<and> \<not> isupper s"
      by auto
    then have "s \<in> ?B" unfolding unseen_terminals_def by blast
    then show ?thesis by blast
  qed
next
  fix s assume "s \<in> ?new \<union> ?B"
  then consider "s \<in> ?new" | "s \<in> ?B" by blast
  then show "s \<in> ?A"
  proof cases
    case 1
    then have "(lhs, rhs) # g = [] @ (lhs, rhs) # g \<and> s \<in> set rhs \<and>
               s \<notin> N \<union> fst ` set [] \<union> {lhs} \<and> \<not> isupper s"
      by simp
    then show ?thesis unfolding unseen_terminals_def by blast
  next
    case 2
    then obtain pre l r post where h: "g = pre @ (l, r) # post" "s \<in> set r"
      "s \<notin> insert lhs N \<union> fst ` set pre \<union> {l}" "\<not> isupper s"
      unfolding unseen_terminals_def by blast
    then have "(lhs, rhs) # g = ((lhs, rhs) # pre) @ (l, r) # post \<and> s \<in> set r \<and>
               s \<notin> N \<union> fst ` set ((lhs, rhs) # pre) \<union> {l} \<and> \<not> isupper s"
      by auto
    then show ?thesis unfolding unseen_terminals_def by blast
  qed
qed

lemma terminals_fold:
  "set (fold (\<lambda>symbol ts. if Q symbol then set_add symbol ts else ts) rhs ts)
     = set ts \<union> {s \<in> set rhs. Q s}"
  by (induction rhs arbitrary: ts) auto

lemma collect_symbols_terminals:
  "set (snd (collect_symbols g (nts, ts))) = set ts \<union> unseen_terminals (set nts) g"
proof (induction g arbitrary: nts ts)
  case Nil
  show ?case by simp
next
  case (Cons p g)
  obtain lhs rhs where p: "p = (lhs, rhs)" by (cases p)
  show ?case
    unfolding p by (auto simp: Cons.IH terminals_fold unseen_terminals_Cons Let_def)
qed

lemma first_terminals_sound:
  assumes "s \<in> set (snd (collect_symbols g ([], [])))"
  shows "s \<in> rhs_symbols g \<and> \<not> isupper s"
proof -
  from assms obtain pre lhs rhs post where "g = pre @ (lhs, rhs) # post" "s \<in> set rhs"
    "\<not> isupper s"
    unfolding collect_symbols_terminals unseen_terminals_def by auto
  then show ?thesis by (auto simp: rhs_symbols_def)
qed

lemma first_terminals_complete:
  assumes "s \<in> rhs_symbols g" "s \<notin> fst ` set g" "\<not> isupper s"
  shows "s \<in> set (snd (collect_symbols g ([], [])))"
proof -
  from assms(1) obtain p where p: "p \<in> set g" "s \<in> set (snd p)"
    by (auto simp: rhs_symbols_def)
  then obtain pre post where g: "g = pre @ p # post" by (auto simp: in_set_conv_decomp)
  then have "g = pre @ (fst p, snd p) # post \<and> s \<in> set (snd p) \<and>
             s \<notin> set [] \<union> fst ` set pre \<union> {fst p} \<and> \<not> isupper s"
    using assms(2,3) p(2) by auto
  then show ?thesis unfolding collect_symbols_terminals unseen_terminals_def by blast
qed

text \<open>The table builder runs the same loop and adds \<open>id\<close> and \<open>*\<close> wherever they occur.\<close>

lemma table_terminals_fold:
  "set (fold (\<lambda>sym ts.
                if sym = ''id'' \<or> sym = ''*''
                then set_add sym (if Q sym then set_add sym ts else ts)
                else if Q sym then set_add sym ts else ts) rhs ts)
     = set ts \<union> {s \<in> set rhs. Q s} \<union> (set rhs \<inter> {''id'', ''*''})"
  by (induction rhs arbitrary: ts) auto

lemma table_symbols_terminals:
  "set (fst (table_symbols g (ts, nts))) =
     set ts \<union> unseen_terminals (set nts) g \<union> (rhs_symbols g \<inter> {''id'', ''*''})"
proof (induction g arbitrary: nts ts)
  case Nil
  show ?case by (simp add: rhs_symbols_def)
next
  case (Cons p g)
  obtain lhs rhs where p: "p = (lhs, rhs)" by (cases p)
  have r: "rhs_symbols ((lhs, rhs) # g) = set rhs \<union> rhs_symbols g"
    by (simp add: rhs_symbols_def)
  show ?case
    unfolding p r
    by (auto simp: Cons.IH table_terminals_fold unseen_terminals_Cons Let_def)
qed

lemma table_symbols_nonterminals: "set (snd (table_symbols g (ts, nts))) = set nts \<union> fst ` set g"
  by (induction g arbitrary: nts ts) (force simp: Let_def)+

lemma set_table_terminals:
  "set (table_terminals g) =
     insert ''$'' (set (snd (collect_symbols g ([], []))) \<union> (rhs_symbols g \<inter> {''id'', ''*''}))"
  by (simp add: table_terminals_def table_symbols_terminals collect_symbols_terminals)

section \<open>The keys of the FOLLOW dictionary and the errors of the table builder\<close>

lemma follow_trailer_keys:
  "fst ` set (fst (follow_trailer fs lhs symb rest d)) \<subseteq> insert symb (insert lhs (fst ` set d))"
proof (induction rest arbitrary: d)
  case Nil
  show ?case by (auto simp: Let_def)
next
  case (Cons next_symbol rest)
  define d1 where "d1 = AList.update symb
      (set_update (lookup (touch symb d) symb)
         (case map_of fs next_symbol of Some f \<Rightarrow> removeAll epsilon f | None \<Rightarrow> [next_symbol]))
      (touch symb d)"
  have k1: "fst ` set d1 = insert symb (fst ` set d)" by (simp add: d1_def)
  have "fst (follow_trailer fs lhs symb (next_symbol # rest) d) = d1 \<or>
        fst (follow_trailer fs lhs symb (next_symbol # rest) d) = fst (follow_trailer fs lhs symb rest d1)"
    by (simp add: Let_def d1_def)
  then show ?case
  proof
    assume "fst (follow_trailer fs lhs symb (next_symbol # rest) d) = d1"
    with k1 show ?thesis by (simp only: ) blast
  next
    assume "fst (follow_trailer fs lhs symb (next_symbol # rest) d) = fst (follow_trailer fs lhs symb rest d1)"
    with Cons.IH [of d1] k1 show ?thesis by (simp only: ) blast
  qed
qed

lemma follow_rhs_keys:
  "fst ` set (fst (follow_rhs fs nts lhs rhs st)) \<subseteq> fst ` set (fst st) \<union> set nts \<union> {lhs}"
proof (induction rhs arbitrary: st)
  case Nil
  show ?case by auto
next
  case (Cons symb rest)
  obtain d c where st: "st = (d, c)" by (cases st)
  show ?case
  proof (cases "symb \<in> set nts")
    case False
    with Cons.IH [of "(d, c)"] show ?thesis by (auto simp: st)
  next
    case True
    let ?st = "(fst (follow_trailer fs lhs symb rest d), c \<or> snd (follow_trailer fs lhs symb rest d))"
    have "follow_rhs fs nts lhs (symb # rest) st = follow_rhs fs nts lhs rest ?st"
      using True by (simp add: st)
    moreover have "fst ` set (fst ?st) \<subseteq> insert symb (insert lhs (fst ` set d))"
      using follow_trailer_keys [of fs lhs symb rest d] by simp
    ultimately show ?thesis using Cons.IH [of ?st] True unfolding st
      by (simp only: fst_conv) blast
  qed
qed

lemma fold_keys:
  assumes "\<And>x st. x \<in> set xs \<Longrightarrow> fst ` set (fst (f x st)) \<subseteq> fst ` set (fst st) \<union> K"
  shows "fst ` set (fst (fold f xs st)) \<subseteq> fst ` set (fst st) \<union> K"
  using assms
proof (induction xs arbitrary: st)
  case Nil
  show ?case by simp
next
  case (Cons x xs)
  have "fst ` set (fst (fold f xs (f x st))) \<subseteq> fst ` set (fst (f x st)) \<union> K"
    by (rule Cons.IH) (simp add: Cons.prems)
  moreover have "fst ` set (fst (f x st)) \<subseteq> fst ` set (fst st) \<union> K"
    by (rule Cons.prems) simp
  ultimately show ?case by auto
qed

lemma follow_pass_keys:
  "fst ` set (fst (follow_pass fs nts prods d)) \<subseteq> fst ` set d \<union> (set nts \<union> fst ` set prods)"
proof -
  have "fst ` set (fst (fold (\<lambda>(lhs, rhss). fold (follow_rhs fs nts lhs) rhss) prods (d, False)))
          \<subseteq> fst ` set (fst (d, False)) \<union> (set nts \<union> fst ` set prods)"
  proof (rule fold_keys)
    fix x st assume x: "x \<in> set prods"
    obtain lhs rhss where [simp]: "x = (lhs, rhss)" by (cases x)
    have "fst ` set (fst (fold (follow_rhs fs nts lhs) rhss st))
            \<subseteq> fst ` set (fst st) \<union> (set nts \<union> {lhs})"
      by (rule fold_keys) (use follow_rhs_keys in blast)
    moreover from x have "lhs \<in> fst ` set prods" by force
    ultimately show "fst ` set (fst ((case x of (lhs, rhss) \<Rightarrow> fold (follow_rhs fs nts lhs) rhss) st))
            \<subseteq> fst ` set (fst st) \<union> (set nts \<union> fst ` set prods)"
      by auto
  qed
  then show ?thesis by (simp add: follow_pass_def)
qed

lemma follow_loop_keys:
  "fst ` set (follow_loop fs nts prods d) \<subseteq> fst ` set d \<union> (set nts \<union> fst ` set prods)"
proof (induction fs nts prods d rule: follow_loop.induct)
  case (1 fs nts prods d)
  show ?case
  proof (cases "snd (follow_pass fs nts prods d)")
    case True
    then have "follow_loop fs nts prods d = follow_loop fs nts prods (fst (follow_pass fs nts prods d))"
      by (subst follow_loop.simps) simp
    with "1.IH" [OF True] follow_pass_keys [of fs nts prods d] show ?thesis by auto
  next
    case False
    then have "follow_loop fs nts prods d = fst (follow_pass fs nts prods d)"
      by (subst follow_loop.simps) simp
    with follow_pass_keys [of fs nts prods d] show ?thesis by auto
  qed
qed

lemma compute_follow_sets_keys:
  "fst ` set (compute_follow_sets g first_sets start) \<subseteq> insert start (fst ` set g)"
  using follow_loop_keys [of first_sets "map fst (group_productions g)" "group_productions g"
      "AList.update start (set_add ''$'' []) []"]
  by (auto simp: compute_follow_sets_def keys_group_productions)

lemma fold_err_error:
  assumes "\<And>x s e. f x s = Inl e \<Longrightarrow> e = E"
  shows "fold_err f xs s = Inl e \<Longrightarrow> e = E"
proof (induction xs arbitrary: s)
  case Nil
  then show ?case by simp
next
  case (Cons x xs)
  then show ?case using assms by (cases "f x s") auto
qed

lemma slr_item_error: "slr_item T gt pm F i it tbl = Inl e \<Longrightarrow> e = KeyError"
  by (auto simp: slr_item_def split: prod.splits if_splits option.splits)

lemma fold_slr_item_error: "fold_err (slr_item T gt pm F i) xs s = Inl e \<Longrightarrow> e = KeyError"
  by (erule fold_err_error [rotated]) (erule slr_item_error)

lemma slr_state_error: "slr_state G gt F x st = Inl e \<Longrightarrow> e = KeyError"
  by (auto simp: slr_state_def split: prod.splits sum.splits dest: fold_slr_item_error)

lemma fold_slr_state_error: "fold_err (slr_state G gt F) xs s = Inl e \<Longrightarrow> e = KeyError"
  by (erule fold_err_error [rotated]) (erule slr_state_error)

lemma build_without_L:
  assumes "''L'' \<notin> fst ` set follow_sets"
  shows "build_slr_parsing_table G item_sets gt follow_sets = Inl KeyError"
proof -
  from assms have "map_of follow_sets ''L'' = None" by (simp add: map_of_eq_None_iff)
  then show ?thesis
    by (auto simp: build_slr_parsing_table_def split: sum.splits dest: fold_slr_state_error)
qed

section \<open>\<open>\<epsilon>\<close> in the FIRST sets\<close>

lemma pairs_update:
  "pairs (AList.update k v d) = {(k', x). k' \<noteq> k \<and> (k', x) \<in> pairs d} \<union> {k} \<times> set v"
  by (auto simp: pairs_def split: if_splits)

lemma pairs_group_productions_fold:
  "pairs (fold (\<lambda>(lhs, rhs) productions.
                  AList.update lhs (lookup productions lhs @ [rhs]) productions) g d)
     = pairs d \<union> set g"
proof (induction g arbitrary: d)
  case Nil
  show ?case by simp
next
  case (Cons p g)
  obtain lhs rhs where p: "p = (lhs, rhs)" by (cases p)
  have "pairs (AList.update lhs (lookup d lhs @ [rhs]) d) = insert (lhs, rhs) (pairs d)"
    unfolding pairs_update by (auto simp: pairs_def)
  then show ?case by (simp add: p Cons.IH)
qed

lemma distinct_group_productions_fold:
  "distinct (map fst d) \<Longrightarrow>
   distinct (map fst (fold (\<lambda>(lhs, rhs) productions.
                  AList.update lhs (lookup productions lhs @ [rhs]) productions) g d))"
  by (induction g arbitrary: d) (auto simp: case_prod_beta distinct_update)

lemma group_productions_iff:
  "(\<exists>rhss. (lhs, rhss) \<in> set (group_productions g) \<and> rhs \<in> set rhss) \<longleftrightarrow> (lhs, rhs) \<in> set g"
proof -
  have d: "distinct (map fst (group_productions g))"
    unfolding group_productions_def by (rule distinct_group_productions_fold) simp
  have "pairs ([] :: (symbol, symbol list list) dict) = {}" by (simp add: pairs_def lookup_def)
  then have p: "pairs (group_productions g) = set g"
    unfolding group_productions_def pairs_group_productions_fold by simp
  have "(\<exists>rhss. (lhs, rhss) \<in> set (group_productions g) \<and> rhs \<in> set rhss)
          \<longleftrightarrow> (lhs, rhs) \<in> pairs (group_productions g)"
  proof
    assume "\<exists>rhss. (lhs, rhss) \<in> set (group_productions g) \<and> rhs \<in> set rhss"
    then obtain rhss where r: "(lhs, rhss) \<in> set (group_productions g)" "rhs \<in> set rhss" by blast
    from r(1) d have "map_of (group_productions g) lhs = Some rhss" by simp
    with r(2) show "(lhs, rhs) \<in> pairs (group_productions g)" by (simp add: pairs_def lookup_def)
  next
    assume "(lhs, rhs) \<in> pairs (group_productions g)"
    then obtain rhss where "map_of (group_productions g) lhs = Some rhss" "rhs \<in> set rhss"
      by (cases "map_of (group_productions g) lhs") (auto simp: pairs_def lookup_def)
    then show "\<exists>rhss. (lhs, rhss) \<in> set (group_productions g) \<and> rhs \<in> set rhss"
      by (blast dest: map_of_SomeD)
  qed
  with p show ?thesis by simp
qed

text \<open>The state after the scan of one symbol of a right-hand side.\<close>

definition first_symbol_step ::
  "symbol pyset \<Rightarrow> symbol \<Rightarrow> symbol \<Rightarrow> (symbol, symbol pyset) dict \<Rightarrow> (symbol, symbol pyset) dict" where
  "first_symbol_step ts lhs X d =
     snd (first_of ts
            (AList.update lhs
               (set_update (lookup (snd (first_of ts (touch lhs d) X)) lhs)
                  (removeAll epsilon (fst (first_of ts (touch lhs d) X))))
               (snd (first_of ts (touch lhs d) X))) X)"

text \<open>\<open>first_of\<close> as a function of the stored sets alone.\<close>

definition sym_first :: "symbol pyset \<Rightarrow> (symbol, symbol pyset) dict \<Rightarrow> symbol \<Rightarrow> symbol pyset" where
  "sym_first ts d X = (if X \<in> set ts then [X] else lookup d X)"

lemma fst_first_of: "fst (first_of ts d X) = sym_first ts d X"
  by (simp add: first_of_def sym_first_def)

lemma sym_first_cong: "(\<And>k. lookup d k = lookup d' k) \<Longrightarrow> sym_first ts d X = sym_first ts d' X"
  by (simp add: sym_first_def)

lemma lookup_first_symbol_step:
  "lookup (first_symbol_step ts lhs X d) k =
     (if k = lhs then set_update (lookup d lhs) (removeAll epsilon (sym_first ts d X))
      else lookup d k)"
  by (simp add: first_symbol_step_def first_of_def sym_first_def)

lemma first_rhs_Cons:
  "first_rhs ts lhs (X # rhs) d =
     (if epsilon \<notin> set (sym_first ts (first_symbol_step ts lhs X d) X)
      then first_symbol_step ts lhs X d
      else first_rhs ts lhs rhs (first_symbol_step ts lhs X d))"
proof -
  have "sym_first ts (first_symbol_step ts lhs X d) X =
        fst (first_of ts
               (AList.update lhs
                  (set_update (lookup (snd (first_of ts (touch lhs d) X)) lhs)
                     (removeAll epsilon (fst (first_of ts (touch lhs d) X))))
                  (snd (first_of ts (touch lhs d) X))) X)"
    unfolding fst_first_of by (rule sym_first_cong) (simp add: first_symbol_step_def fst_first_of)
  then show ?thesis
    by (simp add: Let_def case_prod_beta first_symbol_step_def del: first_of_lookup)
qed

declare first_rhs.simps(2) [simp del]

lemma eps_first_symbol_step:
  "epsilon \<in> set (lookup (first_symbol_step ts lhs X d) k) \<longleftrightarrow> epsilon \<in> set (lookup d k)"
  by (simp add: lookup_first_symbol_step)

lemma eps_sym_first_step:
  "epsilon \<in> set (sym_first ts (first_symbol_step ts lhs X d) Y) \<longleftrightarrow>
   epsilon \<in> set (sym_first ts d Y)"
  by (simp add: sym_first_def eps_first_symbol_step)

subsection \<open>Soundness\<close>

lemma derives_empty_append:
  "derives_empty g u \<Longrightarrow> derives_empty g w \<Longrightarrow> derives_empty g (u @ w)"
proof (induction rule: derives_empty.induct)
  case Empty
  then show ?case by simp
next
  case (Marker u)
  then show ?case by (simp add: derives_empty.Marker)
next
  case (Expand A rhs u)
  then have "derives_empty g (rhs @ u @ w)" by simp
  with Expand.hyps(1) show ?case by (simp add: derives_empty.Expand)
qed

lemma derives_empty_all:
  "\<forall>X\<in>set w. derives_empty g [X] \<Longrightarrow> derives_empty g w"
proof (induction w)
  case Nil
  show ?case by (rule derives_empty.Empty)
next
  case (Cons X w)
  then have "derives_empty g [X]" "derives_empty g w" by simp_all
  then have "derives_empty g ([X] @ w)" by (rule derives_empty_append)
  then show ?case by simp
qed

definition eps_sound :: "grammar \<Rightarrow> (symbol, symbol pyset) dict \<Rightarrow> bool" where
  "eps_sound g d = (\<forall>A. epsilon \<in> set (lookup d A) \<longrightarrow> derives_empty g [A])"

lemma first_rhs_sound:
  assumes "eps_sound g d" "\<forall>X\<in>set pre. derives_empty g [X]" "(lhs, pre @ rest) \<in> set g"
  shows "eps_sound g (first_rhs ts lhs rest d)"
  using assms
proof (induction rest arbitrary: d pre)
  case Nil
  from Nil.prems(3) have "(lhs, pre) \<in> set g" by simp
  moreover from Nil.prems(2) have "derives_empty g pre" by (rule derives_empty_all)
  then have "derives_empty g (pre @ [])" by simp
  ultimately have "derives_empty g [lhs]" by (rule derives_empty.Expand)
  with Nil.prems(1) show ?case by (auto simp: eps_sound_def)
next
  case (Cons X rest)
  let ?d = "first_symbol_step ts lhs X d"
  have s: "eps_sound g ?d"
    using Cons.prems(1) by (simp add: eps_sound_def eps_first_symbol_step)
  show ?case
  proof (cases "epsilon \<notin> set (sym_first ts ?d X)")
    case True
    with s show ?thesis by (simp add: first_rhs_Cons)
  next
    case False
    have "derives_empty g [epsilon]"
      by (intro derives_empty.Marker derives_empty.Empty)
    with False have "derives_empty g [X]"
      using s by (cases "X \<in> set ts") (auto simp: sym_first_def eps_sound_def)
    with Cons.prems(2) have "\<forall>Y\<in>set (pre @ [X]). derives_empty g [Y]" by simp
    moreover have "(lhs, (pre @ [X]) @ rest) \<in> set g" using Cons.prems(3) by simp
    ultimately have "eps_sound g (first_rhs ts lhs rest ?d)" by (rule Cons.IH [OF s])
    with False show ?thesis by (simp add: first_rhs_Cons)
  qed
qed

lemma first_production_sound:
  assumes "eps_sound g (fst st)" "(lhs, rhs) \<in> set g"
  shows "eps_sound g (fst (first_production ts lhs rhs st))"
proof -
  have "eps_sound g (touch lhs (fst st))" using assms(1) by (simp add: eps_sound_def)
  then have "eps_sound g (first_rhs ts lhs rhs (touch lhs (fst st)))"
    by (rule first_rhs_sound [where pre = "[]"]) (simp_all add: assms(2))
  then show ?thesis by (simp add: first_production_def case_prod_beta Let_def)
qed

lemma fold_invariant:
  "(\<And>x st. x \<in> set xs \<Longrightarrow> I (fst st) \<Longrightarrow> I (fst (f x st))) \<Longrightarrow> I (fst st) \<Longrightarrow>
   I (fst (fold f xs st))"
  by (induction xs arbitrary: st) auto

lemma first_pass_sound:
  assumes "eps_sound g d"
    and "\<And>lhs rhss rhs. (lhs, rhss) \<in> set prods \<Longrightarrow> rhs \<in> set rhss \<Longrightarrow> (lhs, rhs) \<in> set g"
  shows "eps_sound g (fst (first_pass ts prods d))"
  unfolding first_pass_def
proof (rule fold_invariant [where I = "eps_sound g"])
  show "eps_sound g (fst (d, False))" using assms(1) by simp
next
  fix x and st :: "(symbol, symbol pyset) dict \<times> bool"
  assume x: "x \<in> set prods" and st: "eps_sound g (fst st)"
  obtain lhs rhss where xe: "x = (lhs, rhss)" by (cases x)
  have "eps_sound g (fst (fold (first_production ts lhs) rhss st))"
  proof (rule fold_invariant [where I = "eps_sound g", OF _ st])
    fix rhs and st' :: "(symbol, symbol pyset) dict \<times> bool"
    assume "rhs \<in> set rhss" and st': "eps_sound g (fst st')"
    with x xe have "(lhs, rhs) \<in> set g" by (auto intro: assms(2))
    with st' show "eps_sound g (fst (first_production ts lhs rhs st'))"
      by (rule first_production_sound)
  qed
  then show "eps_sound g (fst ((case x of (lhs, rhss) \<Rightarrow> fold (first_production ts lhs) rhss) st))"
    by (simp add: xe)
qed

lemma first_loop_sound:
  "(\<forall>lhs rhss rhs. (lhs, rhss) \<in> set prods \<longrightarrow> rhs \<in> set rhss \<longrightarrow> (lhs, rhs) \<in> set g) \<Longrightarrow>
   eps_sound g d \<Longrightarrow> eps_sound g (first_loop ts prods d)"
proof (induction ts prods d rule: first_loop.induct)
  case (1 ts prods d)
  have p: "eps_sound g (fst (first_pass ts prods d))"
    by (rule first_pass_sound [OF "1.prems"(2)]) (use "1.prems"(1) in blast)
  show ?case
  proof (cases "snd (first_pass ts prods d)")
    case True
    then have "first_loop ts prods d = first_loop ts prods (fst (first_pass ts prods d))"
      by (subst first_loop.simps) simp
    with "1.IH" [OF True "1.prems"(1) p] show ?thesis by simp
  next
    case False
    then have "first_loop ts prods d = fst (first_pass ts prods d)"
      by (subst first_loop.simps) simp
    with p show ?thesis by simp
  qed
qed

subsection \<open>Completeness\<close>

lemma ext_antisym: "ext a b \<Longrightarrow> ext b a \<Longrightarrow> b = a"
  by (auto simp: ext_def)

lemma ext_same_length: "ext a b \<Longrightarrow> length b \<le> length a \<Longrightarrow> b = a"
  by (auto simp: ext_def)

lemma first_rhs_le: "dict_le d (first_rhs ts lhs rhs d)"
  using first_rhs_grows [of UNIV ts d lhs rhs] by simp

text \<open>
  A production is closed in a dictionary when the scan of its right-hand side would add
  nothing: if every symbol has \<open>\<epsilon>\<close> in its FIRST set, so has the left-hand side.
\<close>

definition closed_prod ::
  "symbol pyset \<Rightarrow> (symbol, symbol pyset) dict \<Rightarrow> symbol \<Rightarrow> symbol list \<Rightarrow> bool" where
  "closed_prod ts d lhs rhs =
     ((\<forall>X\<in>set rhs. epsilon \<in> set (sym_first ts d X)) \<longrightarrow> epsilon \<in> set (lookup d lhs))"

lemma closed_prod_cong:
  "(\<And>k. lookup d k = lookup d' k) \<Longrightarrow> closed_prod ts d lhs rhs = closed_prod ts d' lhs rhs"
  by (simp add: closed_prod_def sym_first_def)

lemma first_rhs_stable:
  assumes "\<forall>k. lookup (first_rhs ts lhs rhs d) k = lookup d k"
  shows "closed_prod ts d lhs rhs"
  using assms
proof (induction rhs arbitrary: d)
  case Nil
  from Nil.prems have "lookup (first_rhs ts lhs [] d) lhs = lookup d lhs" by blast
  then have "set_add epsilon (lookup d lhs) = lookup d lhs" by simp
  then have "epsilon \<in> set (lookup d lhs)" by (metis set_set_add insertI1)
  then show ?case by (simp add: closed_prod_def)
next
  case (Cons X rhs)
  let ?d = "first_symbol_step ts lhs X d"
  show ?case
    unfolding closed_prod_def
  proof
    assume all: "\<forall>Y\<in>set (X # rhs). epsilon \<in> set (sym_first ts d Y)"
    then have "epsilon \<in> set (sym_first ts ?d X)" by (simp add: eps_sym_first_step)
    then have eq: "first_rhs ts lhs (X # rhs) d = first_rhs ts lhs rhs ?d"
      by (simp add: first_rhs_Cons)
    have same: "lookup ?d k = lookup d k" for k
    proof (rule ext_antisym)
      show "ext (lookup d k) (lookup ?d k)" by (simp add: lookup_first_symbol_step)
      have "ext (lookup ?d k) (lookup (first_rhs ts lhs rhs ?d) k)"
        using first_rhs_le [of ?d ts lhs rhs] by (simp add: dict_le_def)
      with Cons.prems eq show "ext (lookup ?d k) (lookup d k)" by simp
    qed
    have "closed_prod ts ?d lhs rhs"
      by (rule Cons.IH) (use Cons.prems eq same in simp)
    moreover have "\<forall>Y\<in>set rhs. epsilon \<in> set (sym_first ts ?d Y)"
      using all by (simp add: eps_sym_first_step)
    ultimately have "epsilon \<in> set (lookup ?d lhs)" by (simp add: closed_prod_def)
    then show "epsilon \<in> set (lookup d lhs)" by (simp add: same)
  qed
qed

lemma first_production_stable:
  assumes "\<not> snd (first_production ts lhs rhs st)"
  shows "\<not> snd st \<and> (\<forall>k. lookup (fst (first_production ts lhs rhs st)) k = lookup (fst st) k) \<and>
         closed_prod ts (fst st) lhs rhs"
proof -
  obtain d c where st: "st = (d, c)" by (cases st)
  let ?d1 = "first_rhs ts lhs rhs (touch lhs d)"
  from assms have c: "\<not> c" and len: "length (lookup ?d1 lhs) \<le> length (lookup d lhs)"
    by (auto simp: st first_production_def Let_def)
  have "ext (lookup (touch lhs d) k) (lookup ?d1 k)" for k
    using first_rhs_le [of "touch lhs d" ts lhs rhs] by (simp add: dict_le_def)
  then have "ext (lookup d lhs) (lookup ?d1 lhs)" by simp
  then have "lookup ?d1 lhs = lookup d lhs" using len by (rule ext_same_length)
  then have same: "lookup ?d1 k = lookup (touch lhs d) k" for k
    by (cases "k = lhs") (simp_all add: first_rhs_other)
  then have "closed_prod ts (touch lhs d) lhs rhs" by (intro first_rhs_stable) simp
  then have "closed_prod ts d lhs rhs"
    by (simp add: closed_prod_cong [of "touch lhs d" d])
  with c same show ?thesis by (simp add: st first_production_def Let_def)
qed

lemma fold_stable:
  fixes f :: "'x \<Rightarrow> ('k, 'v list) dict \<times> bool \<Rightarrow> ('k, 'v list) dict \<times> bool"
  assumes step: "\<And>x st. x \<in> set xs \<Longrightarrow> \<not> snd (f x st) \<Longrightarrow>
                   \<not> snd st \<and> (\<forall>k. lookup (fst (f x st)) k = lookup (fst st) k) \<and> Q x (fst st)"
    and cong: "\<And>x d d'. (\<forall>k. lookup d k = lookup d' k) \<Longrightarrow> Q x d \<Longrightarrow> Q x d'"
  shows "\<not> snd (fold f xs st) \<Longrightarrow>
         \<not> snd st \<and> (\<forall>k. lookup (fst (fold f xs st)) k = lookup (fst st) k) \<and>
         (\<forall>x\<in>set xs. Q x (fst st))"
  using step
proof (induction xs arbitrary: st)
  case Nil
  then show ?case by simp
next
  case (Cons x xs)
  from Cons.prems(1) have "\<not> snd (fold f xs (f x st))" by simp
  then have a: "\<not> snd (f x st)"
      "\<forall>k. lookup (fst (fold f xs (f x st))) k = lookup (fst (f x st)) k"
      "\<forall>y\<in>set xs. Q y (fst (f x st))"
    using Cons.IH [of "f x st"] Cons.prems(2) by auto
  from a(1) have b: "\<not> snd st" "\<forall>k. lookup (fst (f x st)) k = lookup (fst st) k" "Q x (fst st)"
    using Cons.prems(2) [of x st] by auto
  have "\<forall>y\<in>set xs. Q y (fst st)"
    using a(3) b(2) cong by blast
  with a b show ?case by simp
qed

lemma first_pass_stable:
  assumes "\<not> snd (first_pass ts prods d)"
  shows "(\<forall>k. lookup (fst (first_pass ts prods d)) k = lookup d k) \<and>
         (\<forall>x\<in>set prods. \<forall>rhs\<in>set (snd x). closed_prod ts d (fst x) rhs)"
proof -
  let ?Q = "\<lambda>x d. \<forall>rhs\<in>set (snd x). closed_prod ts d (fst x) rhs"
  have inner: "\<not> snd st \<and>
        (\<forall>k. lookup (fst (fold (first_production ts lhs) rhss st)) k = lookup (fst st) k) \<and>
        (\<forall>rhs\<in>set rhss. closed_prod ts (fst st) lhs rhs)"
    if "\<not> snd (fold (first_production ts lhs) rhss st)" for lhs rhss
      and st :: "(symbol, symbol pyset) dict \<times> bool"
    using _ _ that
  proof (rule fold_stable [where Q = "\<lambda>rhs d. closed_prod ts d lhs rhs"])
    fix rhs and st' :: "(symbol, symbol pyset) dict \<times> bool"
    assume "\<not> snd (first_production ts lhs rhs st')"
    then show "\<not> snd st' \<and>
        (\<forall>k. lookup (fst (first_production ts lhs rhs st')) k = lookup (fst st') k) \<and>
        closed_prod ts (fst st') lhs rhs"
      by (rule first_production_stable)
  next
    fix rhs and d d' :: "(symbol, symbol pyset) dict"
    assume "\<forall>k. lookup d k = lookup d' k" "closed_prod ts d lhs rhs"
    then show "closed_prod ts d' lhs rhs" using closed_prod_cong [of d d' ts lhs rhs] by simp
  qed
  have "\<not> snd (d, False) \<and>
        (\<forall>k. lookup (fst (fold (\<lambda>(lhs, rhss). fold (first_production ts lhs) rhss) prods (d, False))) k
              = lookup (fst (d, False)) k) \<and>
        (\<forall>x\<in>set prods. ?Q x (fst (d, False)))"
    using _ _ assms [unfolded first_pass_def]
  proof (rule fold_stable [where Q = ?Q])
    fix x and st :: "(symbol, symbol pyset) dict \<times> bool"
    assume "\<not> snd ((case x of (lhs, rhss) \<Rightarrow> fold (first_production ts lhs) rhss) st)"
    then have "\<not> snd (fold (first_production ts (fst x)) (snd x) st)"
      by (simp add: case_prod_beta)
    from inner [OF this]
    show "\<not> snd st \<and>
        (\<forall>k. lookup (fst ((case x of (lhs, rhss) \<Rightarrow> fold (first_production ts lhs) rhss) st)) k
              = lookup (fst st) k) \<and> ?Q x (fst st)"
      by (simp add: case_prod_beta)
  next
    fix x and d d' :: "(symbol, symbol pyset) dict"
    assume "\<forall>k. lookup d k = lookup d' k" "?Q x d"
    then show "?Q x d'" using closed_prod_cong [of d d' ts] by simp
  qed
  then show ?thesis by (simp add: first_pass_def)
qed

lemma first_loop_closed:
  "(lhs, rhss) \<in> set prods \<Longrightarrow> rhs \<in> set rhss \<Longrightarrow>
   closed_prod ts (first_loop ts prods d) lhs rhs"
proof (induction ts prods d rule: first_loop.induct)
  case (1 ts prods d)
  show ?case
  proof (cases "snd (first_pass ts prods d)")
    case True
    then have "first_loop ts prods d = first_loop ts prods (fst (first_pass ts prods d))"
      by (subst first_loop.simps) simp
    with "1.IH" [OF True "1.prems"] show ?thesis by simp
  next
    case False
    then have eq: "first_loop ts prods d = fst (first_pass ts prods d)"
      by (subst first_loop.simps) simp
    from first_pass_stable [OF False] "1.prems"
    have "\<forall>k. lookup (fst (first_pass ts prods d)) k = lookup d k" "closed_prod ts d lhs rhs"
      by force+
    then show ?thesis
      unfolding eq using closed_prod_cong [of "fst (first_pass ts prods d)" d ts lhs rhs] by simp
  qed
qed

lemma derives_empty_first:
  assumes closed: "\<And>lhs rhs. (lhs, rhs) \<in> set g \<Longrightarrow> closed_prod ts F lhs rhs"
    and disj: "set ts \<inter> fst ` set g = {}"
    and eps: "epsilon \<in> rhs_symbols g \<Longrightarrow> epsilon \<in> set ts" "epsilon \<notin> fst ` set g"
  shows "derives_empty g w \<Longrightarrow> set w \<subseteq> rhs_symbols g \<union> fst ` set g \<Longrightarrow>
         \<forall>X\<in>set w. epsilon \<in> set (sym_first ts F X)"
proof (induction rule: derives_empty.induct)
  case Empty
  show ?case by simp
next
  case (Marker w)
  from Marker.prems eps have "epsilon \<in> set ts" by auto
  then have "epsilon \<in> set (sym_first ts F epsilon)" by (simp add: sym_first_def)
  with Marker show ?case by simp
next
  case (Expand A rhs w)
  from Expand.hyps(1) have "set rhs \<subseteq> rhs_symbols g" by (force simp: rhs_symbols_def)
  with Expand.prems have "set (rhs @ w) \<subseteq> rhs_symbols g \<union> fst ` set g" by auto
  then have ih: "\<forall>X\<in>set (rhs @ w). epsilon \<in> set (sym_first ts F X)" by (rule Expand.IH)
  then have "epsilon \<in> set (lookup F A)"
    using closed [OF Expand.hyps(1)] by (simp add: closed_prod_def)
  moreover from Expand.hyps(1) disj have "A \<notin> set ts" by force
  ultimately have "epsilon \<in> set (sym_first ts F A)" by (simp add: sym_first_def)
  with ih show ?case by simp
qed

lemma isupper_epsilon [simp]: "\<not> isupper epsilon"
proof -
  have "contains epsilon epsilon" by (simp add: epsilon_def)
  then show ?thesis by (simp add: isupper_def)
qed

section \<open>The table and the run of the fixed grammar\<close>


















lemma distinct_fixed: "\<forall>I\<in>set fixed_item_sets. distinct I"
  by (simp add: fixed_item_sets_def)










section \<open>Claims about \<open>parse_grammar\<close>\<close>

text \<open>
  C5 (as stated): the line \<open>A ->\<close>, with no alternative and no \<open>\<epsilon>\<close> marker, makes
  \<open>parse_grammar\<close> fail with a \<open>GrammarSyntaxError\<close>.  The program has no such error:
  on this line it returns the production of \<open>A\<close> with an empty right-hand side.
\<close>

theorem C5_bare_arrow_counterexample:
  "parse_grammar ''A ->'' = Inr [(''A'', [])]"
  by (simp add: parse_grammar_def parse_line_def strip_def is_space_def)

text \<open>
  C5 (amended): \<open>parse_grammar\<close> fails only with the \<open>ValueError\<close> of the unpacking
  \<open>lhs, rhs = line.split('->')\<close>, and exactly when some line of the stripped text holds
  \<open>->\<close> more than once.  A line with \<open>->\<close> and no left-hand side, or with no
  alternative, is accepted: \<open>-> a\<close> gives a production whose left-hand side is the empty
  string, and every line \<open>A ->\<close>, where the name \<open>A\<close> is a non-empty ASCII string without
  whitespace and without \<open>->\<close>, gives the production of \<open>A\<close> with the empty right-hand
  side.
\<close>

theorem C5_parse_grammar_errors:
  "(parse_grammar text = Inl e \<longleftrightarrow>
      e = ValueError \<and>
      (\<exists>line\<in>set (split_on [CHR 0x0A] [] (strip text)).
         2 < length (split_on ''->'' [] line))) \<and>
   parse_grammar ''-> a'' = Inr [([], [''a''])] \<and>
   (A \<noteq> [] \<and> ascii A \<and> (\<forall>c\<in>set A. \<not> is_space c) \<and> \<not> contains ''->'' A \<longrightarrow>
      parse_grammar (A @ '' ->'') = Inr [(A, [])])"
proof (intro conjI impI)
  show "parse_grammar text = Inl e \<longleftrightarrow>
      e = ValueError \<and>
      (\<exists>line\<in>set (split_on [CHR 0x0A] [] (strip text)).
         2 < length (split_on ''->'' [] line))"
    unfolding parse_grammar_def by (rule parse_lines_error)
  show "parse_grammar ''-> a'' = Inr [([], [''a''])]"
    by (simp add: parse_grammar_def parse_line_def strip_def is_space_def)
  assume "A \<noteq> [] \<and> ascii A \<and> (\<forall>c\<in>set A. \<not> is_space c) \<and> \<not> contains ''->'' A"
  then show "parse_grammar (A @ '' ->'') = Inr [(A, [])]"
    using parse_grammar_line [of A "[]"] by (simp add: strip_def)
qed

theorem C5_parse_grammar_errors_witness:
  "parse_grammar ''S -> a -> b'' = Inl ValueError \<and> parse_grammar ''Expr ->'' = Inr [(''Expr'', [])]"
proof -
  have "2 < length (split_on ''->'' [] ''S -> a -> b'')" by simp
  moreover have "split_on [CHR 0x0A] [] (strip ''S -> a -> b'') = [''S -> a -> b'']"
    by (simp add: strip_def is_space_def)
  moreover have "''Expr'' \<noteq> [] \<and> ascii ''Expr'' \<and> (\<forall>c\<in>set ''Expr''. \<not> is_space c) \<and>
                 \<not> contains ''->'' ''Expr''"
    by (simp add: is_space_def ascii_def)
  ultimately show ?thesis
    using C5_parse_grammar_errors [of "''S -> a -> b''" ValueError "''Expr''"] by simp
qed

text \<open>
  C6 (as stated): for a line \<open>A -> \<epsilon>\<close>, \<open>parse_grammar\<close> produces \<open>(A, [])\<close>.  It does
  not: the marker stays in the right-hand side as a symbol.
\<close>

theorem C6_epsilon_counterexample:
  "parse_grammar (''A -> '' @ epsilon) \<noteq> Inr [(''A'', [])]"
  by (simp add: parse_grammar_def parse_line_def strip_def is_space_def epsilon_def)

text \<open>
  C6 (amended): for every line \<open>A -> \<epsilon>\<close>, where the name \<open>A\<close> is a non-empty ASCII
  string that holds neither whitespace nor \<open>->\<close>, \<open>parse_grammar\<close> produces the production
  \<open>(A, ['\<epsilon>'])\<close>: the marker is kept as the only symbol of the right-hand side.
\<close>

theorem C6_epsilon_kept:
  assumes "A \<noteq> []" "ascii A" "\<forall>c\<in>set A. \<not> is_space c" "\<not> contains ''->'' A"
  shows "parse_grammar (A @ '' -> '' @ epsilon) = Inr [(A, [epsilon])]"
proof -
  have e1: "strip ('' '' @ epsilon) = epsilon" and e2: "strip epsilon = epsilon"
    by (simp_all add: strip_def epsilon_def is_space_def)
  have e3: "split_on ''|'' [] epsilon = [epsilon]" and e4: "split_ws [] epsilon = [epsilon]"
    by (simp_all add: epsilon_def is_space_def)
  have "parse_grammar (A @ '' ->'' @ ('' '' @ epsilon)) =
          Inr (map (\<lambda>alt. (A, split_ws [] (strip alt))) (split_on ''|'' [] (strip ('' '' @ epsilon))))"
    using assms(1,3,4) by (rule parse_grammar_line) (simp_all add: epsilon_def is_space_def)
  then have "parse_grammar (A @ '' ->'' @ ('' '' @ epsilon)) = Inr [(A, [epsilon])]"
    by (simp only: e1 e2 e3 e4 list.map)
  then show ?thesis by simp
qed

theorem C6_epsilon_kept_witness:
  "parse_grammar (''Expr'' @ '' -> '' @ epsilon) = Inr [(''Expr'', [epsilon])]"
proof -
  have "''Expr'' \<noteq> []" "ascii ''Expr''" "\<forall>c\<in>set ''Expr''. \<not> is_space c"
    "\<not> contains ''->'' ''Expr''"
    by (simp_all add: is_space_def ascii_def)
  then show ?thesis by (rule C6_epsilon_kept)
qed

section \<open>Claims about the FOLLOW sets, the table cells and the step ceiling\<close>

text \<open>
  C7: \<open>compute_follow_sets\<close> returns the least fixed point of the FOLLOW rules; in
  particular, for a production \<open>B -> C\<close>, all of FOLLOW(\<open>B\<close>) is in FOLLOW(\<open>C\<close>).
  The code misses this for the grammar \<open>B -> C\<close>, \<open>C -> x\<close>, \<open>C -> \<close>, \<open>A -> B B x\<close>
  with start symbol \<open>A\<close>: the first pass adds \<open>x\<close> to FOLLOW(\<open>B\<close>) after \<open>B -> C\<close>
  has been visited, but \<open>before\<close> is read again ahead of the last update, which adds
  nothing, so \<open>changed\<close> stays false and the loop ends with \<open>x\<close> in FOLLOW(\<open>B\<close>) and
  not in FOLLOW(\<open>C\<close>).
\<close>

theorem C7_follow_not_fixed_point:
  "compute_follow_sets
     [(''B'', [''C'']), (''C'', [''x'']), (''C'', []), (''A'', [''B'', ''B'', ''x''])]
     (compute_first_sets
        [(''B'', [''C'']), (''C'', [''x'']), (''C'', []), (''A'', [''B'', ''B'', ''x''])])
     ''A''
   = [(''A'', [''$'']), (''C'', []), (''B'', [''x''])]"
  by code_simp

text \<open>
  C2: a candidate action that is already in a cell is never overwritten.  For the fixed
  grammar, state 2 holds the items \<open>S -> L . = R\<close> and \<open>R -> L .\<close>, and \<open>=\<close> is in
  FOLLOW(\<open>R\<close>): both \<open>shift 8\<close> and \<open>reduce 5\<close> are candidates for the cell
  \<open>(2, =)\<close>.  When the loop visits the shift item first the cell is
  \<open>shift 8/reduce 5\<close>; when it visits the completed item first, the shift branch
  overwrites \<open>reduce 5\<close> and the cell is \<open>shift 8\<close>.
\<close>

theorem C2_shift_overwrites_reduce:
  "map_sum id (\<lambda>(action_table, goto_table_out). map_of action_table (2, ''=''))
     (build_slr_parsing_table fixed_grammar
        (fixed_item_sets[2 := [(''S'', [''L'', ''='', ''R''], 1), (''R'', [''L''], 1)]])
        fixed_goto fixed_follow)
     = Inr (Some ''shift 8/reduce 5'') \<and>
   map_sum id (\<lambda>(action_table, goto_table_out). map_of action_table (2, ''=''))
     (build_slr_parsing_table fixed_grammar
        (fixed_item_sets[2 := [(''R'', [''L''], 1), (''S'', [''L'', ''='', ''R''], 1)]])
        fixed_goto fixed_follow)
     = Inr (Some ''shift 8'')"
  by code_simp

text \<open>
  C10 (as stated): a run that reaches the step ceiling without accepting or failing ends
  with a fatal \<open>DriverError\<close>.  With the productions \<open>A -> A\<close> and \<open>A -> \<close>, the
  actions \<open>reduce 1\<close> in state 0 and \<open>reduce 0\<close> in state 1 on \<open>a\<close>, and the GOTO
  entry \<open>(0, A) = 1\<close>, the driver reduces for ever; the loop ends after 50 steps and the
  trace is returned as it is, the last step being an ordinary \<open>reduce 0\<close>.
\<close>

theorem C10_ceiling_counterexample:
  "map_sum id (\<lambda>steps. (length steps, Action (last steps), Conflict (last steps)))
     (parse_driver [(''A'', [''A'']), (''A'', [])]
        [((0, ''a''), ''reduce 1''), ((1, ''a''), ''reduce 0'')] [((0, ''A''), 1)] [''a''])
   = Inr (50, ''reduce 0'', [])"
  by code_simp

text \<open>
  C10 (amended): for every grammar, ACTION and GOTO table and token sequence the driver
  ends (the loop is a total function) with a trace of at most \<open>max_steps = 50\<close> steps; a
  loop that has recorded \<open>max_steps\<close> steps stops and returns the trace unchanged, without
  raising an error.
\<close>

theorem C10_step_ceiling:
  "(parse_driver grammar action_table goto_table_out tokens = Inr steps \<longrightarrow>
      length steps \<le> max_steps) \<and>
   (max_steps \<le> length steps0 \<longrightarrow>
      driver_loop grammar action_table goto_table_out tokens max_steps stack steps0 pointer
        = Inr steps0)"
proof (intro conjI impI)
  assume "parse_driver grammar action_table goto_table_out tokens = Inr steps"
  then have "driver_loop grammar action_table goto_table_out tokens max_steps [State 0] [] 0
               = Inr steps"
    by (simp add: parse_driver_def)
  then show "length steps \<le> max_steps" by (rule driver_loop_bound) simp
next
  assume "max_steps \<le> length steps0"
  then show "driver_loop grammar action_table goto_table_out tokens max_steps stack steps0 pointer
               = Inr steps0"
    by simp
qed

theorem C10_step_ceiling_witness:
  "length [\<lparr>Stack = ''0'', Input = ''a'', Action = '' (Error)'', Conflict = []\<rparr>] \<le> max_steps \<and>
   driver_loop [] [] [] [''a''] max_steps [State 0]
     (replicate 50 \<lparr>Stack = [], Input = [], Action = [], Conflict = []\<rparr>) 0
     = Inr (replicate 50 \<lparr>Stack = [], Input = [], Action = [], Conflict = []\<rparr>)"
proof -
  have a: "parse_driver [] [] [] [''a'']
             = Inr [\<lparr>Stack = ''0'', Input = ''a'', Action = '' (Error)'', Conflict = []\<rparr>]"
    by code_simp
  have b: "max_steps \<le> length (replicate 50 \<lparr>Stack = [], Input = [], Action = [], Conflict = []\<rparr>)"
    by (simp add: max_steps_def)
  show ?thesis
    using C10_step_ceiling [of "[]" "[]" "[]" "[''a'']"
        "[\<lparr>Stack = ''0'', Input = ''a'', Action = '' (Error)'', Conflict = []\<rparr>]"
        "replicate 50 \<lparr>Stack = [], Input = [], Action = [], Conflict = []\<rparr>" "[State 0]" 0] a b
    by blast
qed

section \<open>Claims about \<open>closure\<close> and the classification of symbols\<close>

text \<open>
  C9: for every grammar \<open>G\<close> and every item set \<open>S\<close>, \<open>closure\<close> is idempotent and
  extensive: the closure of \<open>closure(S, G)\<close> is \<open>closure(S, G)\<close> itself, and
  \<open>closure(S, G)\<close> contains \<open>S\<close>.
\<close>

theorem C9_closure_idempotent_extensive:
  "set (closure (closure S G) G) = set (closure S G) \<and> set S \<subseteq> set (closure S G)"
proof
  let ?prods = "group_productions G"
  have "closed ?prods (set (remdups (closure S G)))"
    unfolding closure_def closed_remdups by (rule closure_loop_closed)
  then have "closure (closure S G) G = remdups (closure S G)"
    unfolding closure_def [of "closure S G"] by (rule closure_loop_fixed)
  then show "set (closure (closure S G) G) = set (closure S G)" by simp
  show "set S \<subseteq> set (closure S G)"
    using closure_loop_extensive [of "remdups S" ?prods] by (simp add: closure_def)
qed

text \<open>
  C4 (as stated): a symbol of the grammar is classified as a terminal if and only if it
  is not a left-hand side.  In the grammar \<open>S -> A\<close> the symbol \<open>A\<close> is not a left-hand
  side, and the classification of \<open>compute_first_sets\<close> does not make it a terminal,
  because it is upper-case.
\<close>

theorem C4_classification_counterexample:
  "''A'' \<in> rhs_symbols [(''S'', [''A''])] \<and> ''A'' \<notin> fst ` set [(''S'', [''A''])] \<and>
   ''A'' \<notin> set (snd (collect_symbols [(''S'', [''A''])] ([], [])))"
  by (simp add: rhs_symbols_def set_add_def isupper_def epsilon_def is_upper_char_def
        is_lower_char_def)

text \<open>
  C4 (amended): for an ASCII symbol \<open>s\<close>: if \<open>compute_first_sets\<close> classifies \<open>s\<close> as a
  terminal, then \<open>s\<close> occurs in a right-hand side and is not upper-case (\<open>str.isupper\<close>);
  if \<open>s\<close> occurs in a right-hand side and is not a left-hand side of any production, it
  is classified as a terminal exactly when it is not upper-case.
  \<open>build_slr_parsing_table\<close> uses the same classification and adds \<open>id\<close> and \<open>*\<close>
  whenever they occur in a right-hand side, and \<open>$\<close> always.  These classes are the ones
  that the two functions use: \<open>first_of\<close> gives the singleton of \<open>s\<close> exactly when \<open>s\<close>
  is in the class of \<open>compute_first_sets\<close> and the stored set otherwise, and for an item
  with \<open>s\<close> after the dot the table builder writes a shift entry exactly when \<open>s\<close> is in
  its class and the transition exists.
\<close>

theorem C4_classification:
  assumes "ascii s"
  shows
  "(s \<in> set (snd (collect_symbols g ([], []))) \<longrightarrow> s \<in> rhs_symbols g \<and> \<not> isupper s) \<and>
   (s \<in> rhs_symbols g \<and> s \<notin> fst ` set g \<longrightarrow>
      (s \<in> set (snd (collect_symbols g ([], []))) \<longleftrightarrow> \<not> isupper s)) \<and>
   (s \<in> set (table_terminals g) \<longleftrightarrow>
      s = ''$'' \<or> s \<in> set (snd (collect_symbols g ([], []))) \<or>
      (s \<in> rhs_symbols g \<and> (s = ''id'' \<or> s = ''*''))) \<and>
   fst (first_of (snd (collect_symbols g ([], []))) first s) =
      (if s \<in> set (snd (collect_symbols g ([], []))) then [s] else lookup first s) \<and>
   (dot_pos < length rhs \<and> rhs ! dot_pos = s \<longrightarrow>
      slr_item (table_terminals g) goto_table prod_map follow_sets i (lhs, rhs, dot_pos)
        action_table =
      (if s \<in> set (table_terminals g)
       then (case map_of goto_table (i, s) of
               Some j \<Rightarrow> Inr (AList.update (i, s) (''shift '' @ str_nat j) action_table)
             | None \<Rightarrow> Inr action_table)
       else Inr action_table))"
proof (intro conjI)
  show "s \<in> set (snd (collect_symbols g ([], []))) \<longrightarrow> s \<in> rhs_symbols g \<and> \<not> isupper s"
    using first_terminals_sound [of s g] by blast
  show "s \<in> rhs_symbols g \<and> s \<notin> fst ` set g \<longrightarrow>
      (s \<in> set (snd (collect_symbols g ([], []))) \<longleftrightarrow> \<not> isupper s)"
    using first_terminals_sound [of s g] first_terminals_complete [of s g] by blast
  show "s \<in> set (table_terminals g) \<longleftrightarrow>
      s = ''$'' \<or> s \<in> set (snd (collect_symbols g ([], []))) \<or>
      (s \<in> rhs_symbols g \<and> (s = ''id'' \<or> s = ''*''))"
    unfolding set_table_terminals by blast
  show "fst (first_of (snd (collect_symbols g ([], []))) first s) =
      (if s \<in> set (snd (collect_symbols g ([], []))) then [s] else lookup first s)"
    by (simp add: first_of_def)
  show "dot_pos < length rhs \<and> rhs ! dot_pos = s \<longrightarrow>
      slr_item (table_terminals g) goto_table prod_map follow_sets i (lhs, rhs, dot_pos)
        action_table =
      (if s \<in> set (table_terminals g)
       then (case map_of goto_table (i, s) of
               Some j \<Rightarrow> Inr (AList.update (i, s) (''shift '' @ str_nat j) action_table)
             | None \<Rightarrow> Inr action_table)
       else Inr action_table)"
  proof
    assume "dot_pos < length rhs \<and> rhs ! dot_pos = s"
    then have "dot_pos < length rhs" and s: "s = rhs ! dot_pos" by simp_all
    then show "slr_item (table_terminals g) goto_table prod_map follow_sets i (lhs, rhs, dot_pos)
        action_table =
      (if s \<in> set (table_terminals g)
       then (case map_of goto_table (i, s) of
               Some j \<Rightarrow> Inr (AList.update (i, s) (''shift '' @ str_nat j) action_table)
             | None \<Rightarrow> Inr action_table)
       else Inr action_table)"
      unfolding s by (simp add: slr_item_def del: str_nat.simps)
  qed
qed

theorem C4_classification_witness:
  "ascii ''a'' \<and>
   (''a'' \<in> set (snd (collect_symbols [(''S'', [''a'', ''B''])] ([], []))) \<longleftrightarrow> \<not> isupper ''a'') \<and>
   slr_item (table_terminals [(''S'', [''a'', ''B''])]) [((0, ''a''), 1)] [] [] 0
     (''S'', [''a'', ''B''], 0) [] = Inr [((0, ''a''), ''shift 1'')]"
proof -
  let ?g = "[(''S'', [''a'', ''B''])]"
  have a: "ascii ''a''" by (simp add: ascii_def)
  note C = C4_classification [OF a, of ?g "[]" 0 "[''a'', ''B'']" "[((0, ''a''), 1)]" "[]" "[]" 0
      "''S''" "[]"]
  have r: "''a'' \<in> rhs_symbols ?g \<and> ''a'' \<notin> fst ` set ?g"
    by (simp add: rhs_symbols_def)
  have p: "(0::nat) < length [''a'', ''B''] \<and> [''a'', ''B''] ! 0 = ''a''" by simp
  have v: "(if ''a'' \<in> set (table_terminals ?g)
            then (case map_of [((0::nat, ''a''), 1::nat)] (0, ''a'') of
                    Some j \<Rightarrow> Inr (AList.update (0, ''a'') (''shift '' @ str_nat j) [])
                  | None \<Rightarrow> Inr [])
            else Inr []) = (Inr [((0, ''a''), ''shift 1'')] :: py_error + (nat \<times> symbol, string) dict)"
    by code_simp
  from C r have "''a'' \<in> set (snd (collect_symbols ?g ([], []))) \<longleftrightarrow> \<not> isupper ''a''"
    by blast
  moreover from C p have "slr_item (table_terminals ?g) [((0, ''a''), 1)] [] [] 0
     (''S'', [''a'', ''B''], 0) [] =
       (if ''a'' \<in> set (table_terminals ?g)
            then (case map_of [((0::nat, ''a''), 1::nat)] (0, ''a'') of
                    Some j \<Rightarrow> Inr (AList.update (0, ''a'') (''shift '' @ str_nat j) [])
                  | None \<Rightarrow> Inr [])
            else Inr [])"
    by blast
  ultimately show ?thesis using a v by (simp only: simp_thms)
qed

section \<open>The claim about grammars without \<open>L\<close>\<close>

text \<open>
  C3: for every grammar in which no production has the left-hand side \<open>L\<close>,
  \<open>build_slr_parsing_table\<close>, called with the FOLLOW sets of that grammar (computed, as the
  application does, for the start symbol \<open>S'\<close>) and any item sets and transitions, raises
  \<open>KeyError\<close> instead of returning the tables: the builder returns only for grammars that
  define \<open>L\<close>.
\<close>

theorem C3_key_error_without_L:
  assumes "''L'' \<notin> fst ` set grammar"
  shows "build_slr_parsing_table grammar item_sets goto_table
           (compute_follow_sets grammar first_sets [CHR ''S'', CHR 0x27]) = Inl KeyError"
proof (rule build_without_L)
  show "''L'' \<notin> fst ` set (compute_follow_sets grammar first_sets [CHR ''S'', CHR 0x27])"
    using compute_follow_sets_keys [of grammar first_sets "[CHR ''S'', CHR 0x27]"] assms by auto
qed

theorem C3_key_error_without_L_witness:
  "build_slr_parsing_table
     [([CHR ''S'', CHR 0x27], [''E'']), (''E'', [''E'', ''+'', ''E'']), (''E'', [''id''])] [] []
     (compute_follow_sets
        [([CHR ''S'', CHR 0x27], [''E'']), (''E'', [''E'', ''+'', ''E'']), (''E'', [''id''])]
        [] [CHR ''S'', CHR 0x27]) = Inl KeyError"
  by (rule C3_key_error_without_L) simp

section \<open>The claim about \<open>\<epsilon>\<close> in the FIRST sets\<close>

text \<open>
  C8 (as stated): for a terminal symbol, the FIRST set used during the computation is the
  singleton of that symbol.  In the grammar \<open>S -> ID\<close> the symbol \<open>ID\<close> is a terminal
  (it is no left-hand side), but it is upper-case: \<open>first_of\<close> reads the stored set of
  \<open>ID\<close>, which is empty, and FIRST(\<open>S\<close>) stays empty.
\<close>

theorem C8_terminal_first_counterexample:
  "''ID'' \<in> rhs_symbols [(''S'', [''ID''])] \<and> ''ID'' \<notin> fst ` set [(''S'', [''ID''])] \<and>
   fst (first_of (snd (collect_symbols [(''S'', [''ID''])] ([], [])))
          (compute_first_sets [(''S'', [''ID''])]) ''ID'') = [] \<and>
   compute_first_sets [(''S'', [''ID''])] = [(''S'', []), (''ID'', [])]"
proof -
  have "compute_first_sets [(''S'', [''ID''])] = [(''S'', []), (''ID'', [])]"
    by code_simp
  moreover have "snd (collect_symbols [(''S'', [''ID''])] ([], [])) = []"
    by code_simp
  ultimately show ?thesis
    by (simp add: rhs_symbols_def first_of_def lookup_def)
qed

text \<open>
  C8 (amended): for every grammar over the modelled alphabet (every symbol is an ASCII
  string or the marker \<open>\<epsilon>\<close>) in which \<open>\<epsilon>\<close> is not a left-hand side and no
  left-hand side is classified as a terminal (the classification of \<open>compute_first_sets\<close>:
  not upper-case and not a left-hand side seen so far), and for every nonterminal \<open>A\<close>, the
  FIRST set that \<open>compute_first_sets\<close> returns for \<open>A\<close> contains \<open>\<epsilon>\<close> if and only if
  \<open>A\<close> can derive the empty string, the marker \<open>\<epsilon>\<close> in a right-hand side standing for
  the empty string; and for a symbol that is classified as a terminal, the FIRST set used
  during the computation is the singleton of that symbol.
\<close>

theorem C8_epsilon_in_first:
  assumes "set (snd (collect_symbols g ([], []))) \<inter> fst ` set g = {}"
    and "epsilon \<notin> fst ` set g"
    and "A \<in> fst ` set g"
    and "\<forall>X\<in>rhs_symbols g \<union> fst ` set g. ascii X \<or> X = epsilon"
  shows "(epsilon \<in> set (lookup (compute_first_sets g) A) \<longleftrightarrow> derives_empty g [A]) \<and>
         (s \<in> set (snd (collect_symbols g ([], []))) \<longrightarrow>
            fst (first_of (snd (collect_symbols g ([], []))) first s) = [s])"
proof (intro conjI iffI impI)
  let ?ts = "snd (collect_symbols g ([], []))"
  let ?F = "compute_first_sets g"
  have prods: "\<forall>lhs rhss rhs. (lhs, rhss) \<in> set (group_productions g) \<longrightarrow> rhs \<in> set rhss \<longrightarrow>
                 (lhs, rhs) \<in> set g"
    using group_productions_iff [of _ g] by blast
  have "eps_sound g []" by (simp add: eps_sound_def lookup_def)
  with prods have sound: "eps_sound g ?F"
    unfolding compute_first_sets_def by (rule first_loop_sound)
  {
    assume "epsilon \<in> set (lookup ?F A)"
    with sound show "derives_empty g [A]" by (simp add: eps_sound_def)
  }
  {
    assume d: "derives_empty g [A]"
    have closed: "closed_prod ?ts ?F lhs rhs" if "(lhs, rhs) \<in> set g" for lhs rhs
    proof -
      from that obtain rhss where "(lhs, rhss) \<in> set (group_productions g)" "rhs \<in> set rhss"
        using group_productions_iff [of lhs g rhs] by blast
      then show ?thesis unfolding compute_first_sets_def by (rule first_loop_closed)
    qed
    have eps: "epsilon \<in> set ?ts" if "epsilon \<in> rhs_symbols g"
      using that assms(2) by (intro first_terminals_complete) simp_all
    have sub: "set [A] \<subseteq> rhs_symbols g \<union> fst ` set g" using assms(3) by simp
    have "\<forall>X\<in>set [A]. epsilon \<in> set (sym_first ?ts ?F X)"
      using closed assms(1) eps assms(2) d sub by (rule derives_empty_first)
    moreover from assms(1,3) have "A \<notin> set ?ts" by blast
    ultimately show "epsilon \<in> set (lookup ?F A)" by (simp add: sym_first_def)
  }
  {
    assume "s \<in> set ?ts"
    then show "fst (first_of ?ts first s) = [s]" by (simp add: first_of_def)
  }
qed

theorem C8_epsilon_in_first_witness:
  "derives_empty [(''S'', [''A'', ''B'']), (''A'', []), (''B'', [epsilon]), (''C'', [''c''])] [''S''] \<and>
   \<not> derives_empty [(''S'', [''A'', ''B'']), (''A'', []), (''B'', [epsilon]), (''C'', [''c''])] [''C''] \<and>
   fst (first_of (snd (collect_symbols
          [(''S'', [''A'', ''B'']), (''A'', []), (''B'', [epsilon]), (''C'', [''c''])] ([], [])))
          [] ''c'') = [''c'']"
proof -
  let ?g = "[(''S'', [''A'', ''B'']), (''A'', []), (''B'', [epsilon]), (''C'', [''c''])]"
  have ts: "snd (collect_symbols ?g ([], [])) = [epsilon, ''c'']"
    by code_simp
  have F: "compute_first_sets ?g =
             [(''S'', [epsilon]), (''A'', [epsilon]), (''B'', [epsilon]), (''C'', [''c''])]"
    by code_simp
  have h1: "set (snd (collect_symbols ?g ([], []))) \<inter> fst ` set ?g = {}"
    unfolding ts by (simp add: epsilon_def)
  have h2: "epsilon \<notin> fst ` set ?g" by (simp add: epsilon_def)
  have h4: "\<forall>X\<in>rhs_symbols ?g \<union> fst ` set ?g. ascii X \<or> X = epsilon"
    by (simp add: rhs_symbols_def ascii_def)
  have "epsilon \<in> set (lookup (compute_first_sets ?g) ''S'')"
       "epsilon \<notin> set (lookup (compute_first_sets ?g) ''C'')"
       "''c'' \<in> set (snd (collect_symbols ?g ([], [])))"
    unfolding F ts by (simp_all add: lookup_def epsilon_def)
  then show ?thesis
    using C8_epsilon_in_first [OF h1 h2 _ h4, of "''S''" "''c''" "[]"]
          C8_epsilon_in_first [OF h1 h2 _ h4, of "''C''" "''c''" "[]"]
    by simp
qed

section \<open>The claim about the run of the application\<close>




end
